theory Spec2Isabelle
  imports Main
begin

section \<open>Data model\<close>

text \<open>
  The class \<open>Graph\<close> of \<open>graph.hpp\<close> owns its nodes and edges in two vectors of
  unique pointers and hands out raw \<open>Node*\<close> and \<open>Edge*\<close> values. Nodes and edges are
  appended and never removed one by one, so the position of an object in its vector
  identifies it: a \<open>Node*\<close> is modelled as the index of the node in \<open>nodes\<close>, an
  \<open>Edge*\<close> as the index of the edge in \<open>edges\<close>, and \<open>nullptr\<close> as \<open>None\<close>. An index
  outside the vector is a pointer to no object of the store; dereferencing it is an
  error of the model (\<open>BadPointer\<close>).

  Integers of type \<open>int\<close> are modelled as HOL integers. The only arithmetic on them is
  \<open>get_distance() + 1\<close> in \<open>bfs\<close>, on the distance of a dequeued node, which is
  smaller than the number of nodes in the store.
\<close>

datatype Color = white | gray | black

definition INT_MAX :: int where
  "INT_MAX = 2147483647"

type_synonym node_ptr = nat

type_synonym edge_ptr = nat

text \<open>
  Modelled from the spec: the classes \<open>Node\<close> and \<open>Edge\<close> are declared in
  \<open>edge.hpp\<close> (and the header it includes), which is not part of the sources. Their
  fields are the ones the accessors used in \<open>graph.hpp\<close> read and write
  (\<open>get_data\<close>, \<open>get_color\<close>/\<open>set_color\<close>, \<open>get_distance\<close>/\<open>set_distance\<close>,
  \<open>get_predecessor\<close>/\<open>set_predecessor\<close>, \<open>get_adj_list\<close>/\<open>add_adjacent\<close>;
  \<open>get_source\<close>, \<open>get_destination\<close>, \<open>get_weight\<close>), as section 3 of the
  specification lists them.
\<close>

record Node =
  data :: int
  color :: Color
  distance :: int
  predecessor :: "node_ptr option"
  adj_list :: "node_ptr list"

record Edge =
  source :: node_ptr
  destination :: node_ptr
  weight :: int

record Graph =
  nodes :: "Node list"
  edges :: "Edge list"
  tot_nodes :: int
  tot_edges :: int

datatype error = BadPointer | NullEdge

datatype diagnostic = NodeNotFound int

text \<open>
  Modelled from the spec: \<open>Node(i)\<close>, the constructor of a node with identity \<open>i\<close>. Its
  adjacency is empty (it is "populated only via edge insertion"); the search state is
  "not meaningful before the first run" and is given the values that \<open>bfs\<close> resets it
  to. No theorem below depends on the initial search state.
\<close>

definition new_Node :: "int \<Rightarrow> Node" where
  "new_Node i = \<lparr>data = i, color = white, distance = INT_MAX, predecessor = None, adj_list = []\<rparr>"

text \<open>
  Modelled from the spec: \<open>Node::add_adjacent\<close> appends a neighbour to the ordered
  adjacency sequence.
\<close>

definition add_adjacent :: "node_ptr \<Rightarrow> Node \<Rightarrow> Node" where
  "add_adjacent v n = n\<lparr>adj_list := adj_list n @ [v]\<rparr>"

section \<open>The store\<close>

text \<open>
  \<open>nodes.size() > tot_nodes\<close> compares a \<open>size_t\<close> with an \<open>int\<close>: the \<open>int\<close> is
  converted to the unsigned 64-bit type first. The assignment back converts the size
  to a 32-bit \<open>int\<close>.
\<close>

definition size_gt :: "nat \<Rightarrow> int \<Rightarrow> bool" where
  "size_gt n t = (int n > (if t < 0 then t + 2 ^ 64 else t))"

definition int_of_size :: "nat \<Rightarrow> int" where
  "int_of_size n = (let m = int n mod 2 ^ 32 in if m < 2 ^ 31 then m else m - 2 ^ 32)"

definition reset :: "Graph \<Rightarrow> Graph" where
  "reset g = \<lparr>nodes = [], edges = [], tot_nodes = 0, tot_edges = 0\<rparr>"

definition insert_node :: "Node \<Rightarrow> Graph \<Rightarrow> Graph" where
  "insert_node n g =
     (let ns = nodes g @ [n]
      in g\<lparr>nodes := ns,
           tot_nodes := (if size_gt (length ns) (tot_nodes g) then int_of_size (length ns)
                         else tot_nodes g)\<rparr>)"

text \<open>
  \<open>insert_edge\<close> dereferences both endpoints of the edge, source first.
\<close>

definition insert_edge :: "Edge \<Rightarrow> Graph \<Rightarrow> error + Graph" where
  "insert_edge e g =
     (if source e < length (nodes g) \<and> destination e < length (nodes g) then
        let ns1 = (nodes g)[source e := add_adjacent (destination e) (nodes g ! source e)];
            ns2 = ns1[destination e := add_adjacent (source e) (ns1 ! destination e)];
            es = edges g @ [e]
        in Inr (g\<lparr>nodes := ns2, edges := es,
                  tot_edges := (if size_gt (length es) (tot_edges g) then int_of_size (length es)
                                else tot_edges g)\<rparr>)
      else Inl BadPointer)"

text \<open>
  The linear scans of \<open>get_node\<close> and \<open>get_edge\<close>, with the position reached so far.
\<close>

fun find_node :: "Node list \<Rightarrow> nat \<Rightarrow> int \<Rightarrow> node_ptr option" where
  "find_node [] i d = None"
| "find_node (n # ns) i d = (if data n = d then Some i else find_node ns (Suc i) d)"

definition get_node :: "Graph \<Rightarrow> int \<Rightarrow> node_ptr option \<times> diagnostic list" where
  "get_node g d =
     (case find_node (nodes g) 0 d of
        Some p \<Rightarrow> (Some p, [])
      | None \<Rightarrow> (None, [NodeNotFound d]))"

fun find_edge :: "Edge list \<Rightarrow> nat \<Rightarrow> node_ptr \<Rightarrow> node_ptr \<Rightarrow> edge_ptr option" where
  "find_edge [] i src dest = None"
| "find_edge (e # es) i src dest =
     (if (source e = src \<and> destination e = dest) \<or> (source e = dest \<and> destination e = src)
      then Some i else find_edge es (Suc i) src dest)"

definition get_edge :: "Graph \<Rightarrow> node_ptr \<Rightarrow> node_ptr \<Rightarrow> edge_ptr option" where
  "get_edge g src dest = find_edge (edges g) 0 src dest"

subsection \<open>Loading\<close>

text \<open>
  \<open>load\<close> reads the header line into \<open>tot_nodes\<close> and \<open>tot_edges\<close>, creates the nodes
  \<open>0 .. tot_nodes - 1\<close> and then handles one edge line after the other. The text
  processing (\<open>format_line\<close>, the string streams) is outside the model: \<open>load\<close> takes
  the two integers of the header and the integer triples of the edge lines.
\<close>

text \<open>
  The loop \<open>for (int i = 0; i < tot_nodes; i++) insert_node(new Node(i))\<close> runs
  \<open>tot_nodes\<close> times: \<open>insert_node\<close> raises \<open>tot_nodes\<close> only when the vector has
  grown beyond it, which does not happen here (\<open>insert_nodes_tot_nodes\<close> below).
\<close>

fun insert_nodes :: "nat \<Rightarrow> int \<Rightarrow> Graph \<Rightarrow> Graph" where
  "insert_nodes 0 i g = g"
| "insert_nodes (Suc k) i g = insert_nodes k (i + 1) (insert_node (new_Node i) g)"

definition load_line :: "int \<times> int \<times> int \<Rightarrow> Graph \<times> diagnostic list \<Rightarrow> Graph \<times> diagnostic list" where
  "load_line ln st =
     (case ln of (src_data, dest_data, w) \<Rightarrow>
      case st of (g, out) \<Rightarrow>
        let (src, d1) = get_node g src_data;
            (dest, d2) = get_node g dest_data
        in case (src, dest) of
             (Some s, Some d) \<Rightarrow>
               (case insert_edge \<lparr>source = s, destination = d, weight = w\<rparr> g of
                  Inr g' \<Rightarrow> (g', out @ d1 @ d2)
                | Inl _ \<Rightarrow> (g, out @ d1 @ d2))
           | _ \<Rightarrow> (g, out @ d1 @ d2))"

definition load :: "int \<Rightarrow> int \<Rightarrow> (int \<times> int \<times> int) list \<Rightarrow> Graph \<times> diagnostic list" where
  "load n m lns =
     (let g0 = \<lparr>nodes = [], edges = [], tot_nodes = n, tot_edges = m\<rparr>;
          g1 = insert_nodes (nat n) 0 g0
      in foldl (\<lambda>st ln. load_line ln st) (g1, []) lns)"

section \<open>Shape classification\<close>

text \<open>
  The children of a node are the entries of its adjacency list that differ from its
  predecessor pointer. Both functions only compare pointers; they dereference none.
\<close>

definition is_child :: "Node \<Rightarrow> node_ptr \<Rightarrow> bool" where
  "is_child n adj = (Some adj \<noteq> predecessor n)"

text \<open>The inner loop of \<open>is_binary\<close>: the counter \<open>children\<close>.\<close>

fun count_children :: "Node \<Rightarrow> node_ptr list \<Rightarrow> int \<Rightarrow> int" where
  "count_children n [] c = c"
| "count_children n (adj # rest) c =
     count_children n rest (if is_child n adj then c + 1 else c)"

fun is_binary_nodes :: "Node list \<Rightarrow> bool" where
  "is_binary_nodes [] = True"
| "is_binary_nodes (n # ns) =
     (if count_children n (adj_list n) 0 > 2 then False else is_binary_nodes ns)"

definition is_binary :: "Graph \<Rightarrow> bool" where
  "is_binary g = is_binary_nodes (nodes g)"

text \<open>The inner loop of \<open>is_complete_binary\<close>: the vector \<open>children\<close>.\<close>

fun collect_children :: "Node \<Rightarrow> node_ptr list \<Rightarrow> node_ptr list \<Rightarrow> node_ptr list" where
  "collect_children n [] cs = cs"
| "collect_children n (adj # rest) cs =
     collect_children n rest (if is_child n adj then cs @ [adj] else cs)"

fun is_complete_binary_nodes :: "Node list \<Rightarrow> bool" where
  "is_complete_binary_nodes [] = True"
| "is_complete_binary_nodes (n # ns) =
     (let cs = collect_children n (adj_list n) []
      in if cs \<noteq> [] \<and> length cs < 2 then False else is_complete_binary_nodes ns)"

definition is_complete_binary :: "Graph \<Rightarrow> bool" where
  "is_complete_binary g = is_complete_binary_nodes (nodes g)"

section \<open>Breadth-first search\<close>

definition bfs_reset :: "Node \<Rightarrow> Node" where
  "bfs_reset n = n\<lparr>color := white, predecessor := None, distance := INT_MAX\<rparr>"

text \<open>
  The loop over the adjacency list of the dequeued node \<open>u\<close>. The state is the node
  vector and the queue. Reading the colour of \<open>adj\<close> dereferences it.
\<close>

fun bfs_adj :: "node_ptr \<Rightarrow> node_ptr list \<Rightarrow> Node list \<times> node_ptr list \<Rightarrow>
    error + (Node list \<times> node_ptr list)" where
  "bfs_adj u [] st = Inr st"
| "bfs_adj u (adj # rest) (ns, q) =
     (if adj < length ns then
        if color (ns ! adj) = white then
          bfs_adj u rest
            (ns[adj := (ns ! adj)\<lparr>color := gray, predecessor := Some u,
                                   distance := distance (ns ! u) + 1\<rparr>],
             q @ [adj])
        else bfs_adj u rest (ns, q)
      else Inl BadPointer)"

text \<open>
  Termination: every push turns a white node gray, and no node becomes white.
\<close>

definition whites :: "Node list \<Rightarrow> nat" where
  "whites ns = card {i. i < length ns \<and> color (ns ! i) = white}"

lemma whites_update_le:
  assumes "color n' \<noteq> white"
  shows "whites (ns[i := n']) \<le> whites ns"
proof -
  have "{j. j < length (ns[i := n']) \<and> color (ns[i := n'] ! j) = white}
      \<subseteq> {j. j < length ns \<and> color (ns ! j) = white}"
  proof
    fix j assume "j \<in> {j. j < length (ns[i := n']) \<and> color (ns[i := n'] ! j) = white}"
    then have "j < length ns" and w: "color (ns[i := n'] ! j) = white" by simp_all
    with assms have "j \<noteq> i" by auto
    with w \<open>j < length ns\<close> show "j \<in> {j. j < length ns \<and> color (ns ! j) = white}" by simp
  qed
  moreover have "finite {j. j < length ns \<and> color (ns ! j) = white}" by simp
  ultimately show ?thesis unfolding whites_def by (rule card_mono[rotated])
qed

lemma whites_update_less:
  assumes "i < length ns" "color (ns ! i) = white" "color n' \<noteq> white"
  shows "whites (ns[i := n']) < whites ns"
proof -
  have "{j. j < length (ns[i := n']) \<and> color (ns[i := n'] ! j) = white}
      \<subset> {j. j < length ns \<and> color (ns ! j) = white}"
  proof
    show "{j. j < length (ns[i := n']) \<and> color (ns[i := n'] ! j) = white}
        \<subseteq> {j. j < length ns \<and> color (ns ! j) = white}"
    proof
      fix j assume "j \<in> {j. j < length (ns[i := n']) \<and> color (ns[i := n'] ! j) = white}"
      then have "j < length ns" and w: "color (ns[i := n'] ! j) = white" by simp_all
      with assms have "j \<noteq> i" by auto
      with w \<open>j < length ns\<close> show "j \<in> {j. j < length ns \<and> color (ns ! j) = white}" by simp
    qed
    have "i \<in> {j. j < length ns \<and> color (ns ! j) = white}" using assms by simp
    moreover have "i \<notin> {j. j < length (ns[i := n']) \<and> color (ns[i := n'] ! j) = white}"
      using assms by simp
    ultimately show "{j. j < length (ns[i := n']) \<and> color (ns[i := n'] ! j) = white}
        \<noteq> {j. j < length ns \<and> color (ns ! j) = white}" by blast
  qed
  moreover have "finite {j. j < length ns \<and> color (ns ! j) = white}" by simp
  ultimately show ?thesis unfolding whites_def by (rule psubset_card_mono[rotated])
qed

lemma bfs_adj_measure:
  "bfs_adj u as (ns, q) = Inr (ns', q') \<Longrightarrow>
     length ns' = length ns \<and> 2 * whites ns' + length q' \<le> 2 * whites ns + length q"
proof (induction as arbitrary: ns q)
  case Nil
  then show ?case by simp
next
  case (Cons adj rest)
  show ?case
  proof (cases "adj < length ns \<and> color (ns ! adj) = white")
    case True
    let ?ns = "ns[adj := (ns ! adj)\<lparr>color := gray, predecessor := Some u,
                                   distance := distance (ns ! u) + 1\<rparr>]"
    from True Cons.prems have "bfs_adj u rest (?ns, q @ [adj]) = Inr (ns', q')" by simp
    from Cons.IH[OF this] have "length ns' = length ns"
      and "2 * whites ns' + length q' \<le> 2 * whites ?ns + length (q @ [adj])" by simp_all
    moreover have "whites ?ns < whites ns"
      using True by (intro whites_update_less) simp_all
    ultimately show ?thesis by simp
  next
    case False
    with Cons.prems have "bfs_adj u rest (ns, q) = Inr (ns', q')"
      by (simp split: if_splits)
    from Cons.IH[OF this] show ?thesis .
  qed
qed

function bfs_loop :: "Node list \<Rightarrow> node_ptr list \<Rightarrow> error + Node list" where
  "bfs_loop ns [] = Inr ns"
| "bfs_loop ns (u # q) =
     (if u < length ns then
        case bfs_adj u (adj_list (ns ! u)) (ns, q) of
          Inl e \<Rightarrow> Inl e
        | Inr (ns', q') \<Rightarrow> bfs_loop (ns'[u := (ns' ! u)\<lparr>color := black\<rparr>]) q'
      else Inl BadPointer)"
  by pat_completeness auto
termination
proof (relation "measure (\<lambda>(ns, q). 2 * whites ns + length q)", goal_cases)
  case 1
  show ?case by simp
next
  case (2 ns u q x ns' q')
  then have "bfs_adj u (adj_list (ns ! u)) (ns, q) = Inr (ns', q')" by simp
  from bfs_adj_measure[OF this]
  have "2 * whites ns' + length q' \<le> 2 * whites ns + length q" by simp
  moreover have "whites (ns'[u := (ns' ! u)\<lparr>color := black\<rparr>]) \<le> whites ns'"
    by (rule whites_update_le) simp
  ultimately show ?case by simp
qed

declare bfs_loop.simps [simp del]

definition bfs :: "Graph \<Rightarrow> node_ptr \<Rightarrow> error + Graph" where
  "bfs g src =
     (let ns0 = map bfs_reset (nodes g)
      in if src < length ns0 then
           let ns1 = ns0[src := (ns0 ! src)\<lparr>distance := 0, color := gray, predecessor := None\<rparr>]
           in case bfs_loop ns1 [src] of
                Inl e \<Rightarrow> Inl e
              | Inr ns \<Rightarrow> Inr (g\<lparr>nodes := ns\<rparr>)
         else Inl BadPointer)"

section \<open>Prim's algorithm\<close>

subsection \<open>The priority queue\<close>

text \<open>
  \<open>std::priority_queue<Node*, std::vector<Node*>, Compare>\<close> keeps its elements in
  a vector: \<open>push\<close> is \<open>push_back\<close> followed by \<open>std::push_heap\<close>, \<open>top\<close> is the first
  element, and \<open>pop\<close> is \<open>std::pop_heap\<close> followed by \<open>pop_back\<close>. The two heap
  procedures are modelled as GNU libstdc++ implements them (the sift-up loop
  \<open>__push_heap\<close>, and \<open>__adjust_heap\<close>, which moves the hole down to a leaf along the
  preferred children and then sifts the displaced value up). The elements are node
  pointers and \<open>Compare\<close> reads the distances the nodes have at the time of the
  comparison, so the node vector is a parameter of every operation.
\<close>

definition compare :: "Node list \<Rightarrow> node_ptr \<Rightarrow> node_ptr \<Rightarrow> bool" where
  "compare ns node1 node2 = (distance (ns ! node1) > distance (ns ! node2))"

function push_heap_loop :: "Node list \<Rightarrow> node_ptr list \<Rightarrow> nat \<Rightarrow> nat \<Rightarrow> node_ptr \<Rightarrow> node_ptr list" where
  "push_heap_loop ns c holeIndex topIndex v =
     (let parent = (holeIndex - 1) div 2
      in if holeIndex > topIndex \<and> compare ns (c ! parent) v
         then push_heap_loop ns (c[holeIndex := c ! parent]) parent topIndex v
         else c[holeIndex := v])"
  by pat_completeness auto
termination
  by (relation "measure (\<lambda>(ns, c, holeIndex, topIndex, v). holeIndex)") auto

declare push_heap_loop.simps [simp del]

function adjust_heap_loop :: "Node list \<Rightarrow> node_ptr list \<Rightarrow> nat \<Rightarrow> nat \<Rightarrow> nat \<Rightarrow>
    node_ptr list \<times> nat \<times> nat" where
  "adjust_heap_loop ns c holeIndex secondChild len =
     (if secondChild < (len - 1) div 2 then
        let right = 2 * (secondChild + 1);
            pick = (if compare ns (c ! right) (c ! (right - 1)) then right - 1 else right)
        in adjust_heap_loop ns (c[holeIndex := c ! pick]) pick pick len
      else (c, holeIndex, secondChild))"
  by pat_completeness auto
termination
  by (relation "measure (\<lambda>(ns, c, holeIndex, secondChild, len). len - secondChild)") (auto simp: Let_def)

declare adjust_heap_loop.simps [simp del]

definition adjust_heap :: "Node list \<Rightarrow> node_ptr list \<Rightarrow> nat \<Rightarrow> nat \<Rightarrow> node_ptr \<Rightarrow> node_ptr list" where
  "adjust_heap ns c holeIndex len v =
     (case adjust_heap_loop ns c holeIndex holeIndex len of
        (c1, holeIndex1, secondChild1) \<Rightarrow>
          if even len \<and> 2 \<le> len \<and> secondChild1 = (len - 2) div 2 then
            let right = 2 * (secondChild1 + 1)
            in push_heap_loop ns (c1[holeIndex1 := c1 ! (right - 1)]) (right - 1) holeIndex v
          else push_heap_loop ns c1 holeIndex1 holeIndex v)"

definition pq_push :: "Node list \<Rightarrow> node_ptr list \<Rightarrow> node_ptr \<Rightarrow> node_ptr list" where
  "pq_push ns c v = push_heap_loop ns (c @ [v]) (length c) 0 v"

definition pq_pop :: "Node list \<Rightarrow> node_ptr list \<Rightarrow> node_ptr list" where
  "pq_pop ns c =
     (if length c > 1 then
        let l = length c - 1
        in butlast (adjust_heap ns (c[l := c ! 0]) 0 l (c ! l))
      else butlast c)"

lemma push_heap_loop_length [simp]: "length (push_heap_loop ns c holeIndex topIndex v) = length c"
  by (induction ns c holeIndex topIndex v rule: push_heap_loop.induct)
     (subst push_heap_loop.simps, simp add: Let_def)

lemma adjust_heap_loop_length [simp]:
  "length (fst (adjust_heap_loop ns c holeIndex secondChild len)) = length c"
  by (induction ns c holeIndex secondChild len rule: adjust_heap_loop.induct)
     (subst adjust_heap_loop.simps, simp add: Let_def)

lemma adjust_heap_length [simp]: "length (adjust_heap ns c holeIndex len v) = length c"
proof -
  obtain c1 h1 s1 where l: "adjust_heap_loop ns c holeIndex holeIndex len = (c1, h1, s1)"
    by (cases "adjust_heap_loop ns c holeIndex holeIndex len")
  with adjust_heap_loop_length[of ns c holeIndex holeIndex len] have "length c1 = length c" by simp
  with l show ?thesis by (simp add: adjust_heap_def Let_def)
qed

lemma pq_push_length [simp]: "length (pq_push ns c v) = Suc (length c)"
  by (simp add: pq_push_def)

lemma pq_pop_length [simp]: "length (pq_pop ns c) = length c - 1"
  by (simp add: pq_pop_def Let_def)

subsection \<open>The loop\<close>

text \<open>
  Besides the node vector, the queue and the set \<open>in_mst\<close>, the model of the loop keeps
  a record of the calls \<open>get_edge(node, adj)\<close> in the order in which they are made. The
  record is not part of the program's state and nothing reads it.
\<close>

type_synonym lookup = "node_ptr \<times> node_ptr"

definition prim_reset :: "Node \<Rightarrow> Node" where
  "prim_reset n = n\<lparr>distance := INT_MAX, predecessor := None\<rparr>"

definition relax :: "node_ptr \<Rightarrow> node_ptr \<Rightarrow> int \<Rightarrow> Node list \<Rightarrow> Node list" where
  "relax u adj w ns = ns[adj := (ns ! adj)\<lparr>predecessor := Some u, distance := w\<rparr>]"

text \<open>
  The loop over the adjacency list of the dequeued node \<open>u\<close>. \<open>find_edge es 0 u adj\<close>
  is \<open>get_edge(node, adj)\<close> on the edge vector \<open>es\<close> of the graph. The test
  \<open>in_mst.find(adj) == in_mst.end() && adj->get_distance() > edge->get_weight()\<close>
  dereferences \<open>adj\<close> and \<open>edge\<close> only when \<open>adj\<close> is not in \<open>in_mst\<close>.
\<close>

fun prim_adj :: "Edge list \<Rightarrow> node_ptr set \<Rightarrow> node_ptr \<Rightarrow> node_ptr list \<Rightarrow>
    Node list \<times> node_ptr list \<times> lookup list \<Rightarrow> error + (Node list \<times> node_ptr list \<times> lookup list)" where
  "prim_adj es in_mst u [] st = Inr st"
| "prim_adj es in_mst u (adj # rest) (ns, pq, lg) =
     (let edge = find_edge es 0 u adj;
          lg' = lg @ [(u, adj)]
      in if adj \<in> in_mst then prim_adj es in_mst u rest (ns, pq, lg')
         else if adj < length ns then
           case edge of
             None \<Rightarrow> Inl NullEdge
           | Some e \<Rightarrow>
               if distance (ns ! adj) > weight (es ! e) then
                 let ns' = relax u adj (weight (es ! e)) ns
                 in prim_adj es in_mst u rest (ns', pq_push ns' pq adj, lg')
               else prim_adj es in_mst u rest (ns, pq, lg')
         else Inl BadPointer)"

text \<open>
  Termination: an update sets the distance of a node to the weight of a stored edge
  that is smaller than the distance was, so the number of stored edges lighter than
  the distance, summed over the nodes, goes down with every push.
\<close>

definition lighter :: "Edge list \<Rightarrow> Node \<Rightarrow> nat" where
  "lighter es n = length (filter (\<lambda>e. weight e < distance n) es)"

definition potential :: "Edge list \<Rightarrow> Node list \<Rightarrow> nat" where
  "potential es ns = sum_list (map (lighter es) ns)"

lemma filter_length_less:
  assumes "\<And>x. P x \<Longrightarrow> Q x" "y \<in> set xs" "Q y" "\<not> P y"
  shows "length (filter P xs) < length (filter Q xs)"
  using assms(2)
proof (induction xs)
  case Nil
  then show ?case by simp
next
  case (Cons x xs)
  have le: "length (filter P xs) \<le> length (filter Q xs)"
    by (induction xs) (auto dest: assms(1))
  show ?case
  proof (cases "y \<in> set xs")
    case True
    from Cons.IH[OF this] show ?thesis by (auto dest: assms(1))
  next
    case False
    with Cons.prems have "x = y" by simp
    with assms(3,4) le show ?thesis by simp
  qed
qed

lemma sum_list_update_less:
  fixes f :: "'a \<Rightarrow> nat"
  shows "i < length xs \<Longrightarrow> f y < f (xs ! i) \<Longrightarrow>
    sum_list (map f (xs[i := y])) < sum_list (map f xs)"
proof (induction xs arbitrary: i)
  case Nil
  then show ?case by simp
next
  case (Cons x xs)
  then show ?case by (cases i) auto
qed

lemma relax_potential:
  assumes "adj < length ns" "e < length es" "weight (es ! e) < distance (ns ! adj)"
  shows "potential es (relax u adj (weight (es ! e)) ns) < potential es ns"
  unfolding potential_def relax_def
proof (rule sum_list_update_less[OF assms(1)])
  show "lighter es ((ns ! adj)\<lparr>predecessor := Some u, distance := weight (es ! e)\<rparr>)
      < lighter es (ns ! adj)"
    unfolding lighter_def
  proof (rule filter_length_less)
    show "es ! e \<in> set es" using assms(2) by simp
  qed (use assms(3) in auto)
qed

lemma find_edge_offset: "find_edge es i a b = Some e \<Longrightarrow> e < i + length es"
proof (induction es arbitrary: i)
  case Nil
  then show ?case by simp
next
  case (Cons x es)
  show ?case
  proof (cases "find_edge (x # es) i a b = Some i")
    case True
    with Cons.prems show ?thesis by simp
  next
    case False
    with Cons.prems have "find_edge es (Suc i) a b = Some e" by (simp split: if_splits)
    from Cons.IH[OF this] show ?thesis by simp
  qed
qed

lemma find_edge_bound: "find_edge es 0 a b = Some e \<Longrightarrow> e < length es"
  using find_edge_offset[of es 0 a b e] by simp

lemma prim_adj_measure:
  "prim_adj es in_mst u as (ns, pq, lg) = Inr (ns', pq', lg') \<Longrightarrow>
     length ns' = length ns \<and> 2 * potential es ns' + length pq' \<le> 2 * potential es ns + length pq"
proof (induction as arbitrary: ns pq lg)
  case Nil
  then show ?case by simp
next
  case (Cons adj rest)
  let ?lg = "lg @ [(u, adj)]"
  show ?case
  proof (cases "adj \<in> in_mst")
    case True
    with Cons.prems have "prim_adj es in_mst u rest (ns, pq, ?lg) = Inr (ns', pq', lg')"
      by (simp add: Let_def)
    from Cons.IH[OF this] show ?thesis .
  next
    case False
    with Cons.prems have a: "adj < length ns" by (simp add: Let_def split: if_splits)
    with False Cons.prems obtain e where e: "find_edge es 0 u adj = Some e"
      by (cases "find_edge es 0 u adj") (simp_all add: Let_def)
    show ?thesis
    proof (cases "distance (ns ! adj) > weight (es ! e)")
      case True
      let ?ns = "relax u adj (weight (es ! e)) ns"
      from True False a e Cons.prems
      have "prim_adj es in_mst u rest (?ns, pq_push ?ns pq adj, ?lg) = Inr (ns', pq', lg')"
        by (simp add: Let_def)
      from Cons.IH[OF this] have "length ns' = length ?ns"
        "2 * potential es ns' + length pq' \<le> 2 * potential es ?ns + length (pq_push ?ns pq adj)"
        by simp_all
      moreover have "potential es ?ns < potential es ns"
        using a find_edge_bound[OF e] True by (rule relax_potential)
      ultimately show ?thesis by (simp add: relax_def)
    next
      case nt: False
      with False a e Cons.prems
      have "prim_adj es in_mst u rest (ns, pq, ?lg) = Inr (ns', pq', lg')"
        by (simp add: Let_def)
      from Cons.IH[OF this] show ?thesis .
    qed
  qed
qed

type_synonym prim_state = "Node list \<times> node_ptr list \<times> node_ptr set \<times> lookup list"

text \<open>One iteration of the \<open>while\<close> loop, and the loop.\<close>

definition prim_iter :: "Edge list \<Rightarrow> prim_state \<Rightarrow> error + prim_state" where
  "prim_iter es st =
     (case st of (ns, pq, in_mst, lg) \<Rightarrow>
        let node = hd pq;
            pq1 = pq_pop ns pq;
            in_mst1 = insert node in_mst
        in if node < length ns then
             case prim_adj es in_mst1 node (adj_list (ns ! node)) (ns, pq1, lg) of
               Inl e \<Rightarrow> Inl e
             | Inr (ns', pq', lg') \<Rightarrow> Inr (ns', pq', in_mst1, lg')
           else Inl BadPointer)"

lemma prim_iter_measure:
  assumes "prim_iter es (ns, pq, in_mst, lg) = Inr (ns', pq', in_mst', lg')" "pq \<noteq> []"
  shows "2 * potential es ns' + length pq' < 2 * potential es ns + length pq"
proof -
  from assms(1) have "prim_adj es (insert (hd pq) in_mst) (hd pq) (adj_list (ns ! hd pq))
      (ns, pq_pop ns pq, lg) = Inr (ns', pq', lg')"
    by (auto simp: prim_iter_def Let_def split: if_splits sum.splits)
  from prim_adj_measure[OF this]
  have "2 * potential es ns' + length pq' \<le> 2 * potential es ns + length (pq_pop ns pq)" by simp
  moreover from assms(2) have "length (pq_pop ns pq) < length pq" by (cases pq) simp_all
  ultimately show ?thesis by simp
qed

function prim_loop :: "Edge list \<Rightarrow> prim_state \<Rightarrow> error + (Node list \<times> lookup list)" where
  "prim_loop es (ns, pq, in_mst, lg) =
     (if pq = [] then Inr (ns, lg)
      else case prim_iter es (ns, pq, in_mst, lg) of
             Inl e \<Rightarrow> Inl e
           | Inr st' \<Rightarrow> prim_loop es st')"
  by pat_completeness auto
termination
proof (relation "measure (\<lambda>(es, ns, pq, in_mst, lg). 2 * potential es ns + length pq)", goal_cases)
  case 1
  show ?case by simp
next
  case (2 es ns pq in_mst lg st')
  obtain ns' pq' in_mst' lg' where st': "st' = (ns', pq', in_mst', lg')" by (cases st')
  with 2 prim_iter_measure[of es ns pq in_mst lg ns' pq' in_mst' lg'] show ?case by simp
qed

declare prim_loop.simps [simp del]

definition prim_run :: "Graph \<Rightarrow> node_ptr \<Rightarrow> error + (Graph \<times> lookup list)" where
  "prim_run g src =
     (let ns0 = map prim_reset (nodes g)
      in if src < length ns0 then
           let ns1 = ns0[src := (ns0 ! src)\<lparr>distance := 0, predecessor := None\<rparr>];
               pq = pq_push ns1 [] src
           in case prim_loop (edges g) (ns1, pq, {}, []) of
                Inl e \<Rightarrow> Inl e
              | Inr (ns, lg) \<Rightarrow> Inr (g\<lparr>nodes := ns\<rparr>, lg)
         else Inl BadPointer)"

definition prim :: "Graph \<Rightarrow> node_ptr \<Rightarrow> error + Graph" where
  "prim g src = (case prim_run g src of Inl e \<Rightarrow> Inl e | Inr (g', lg) \<Rightarrow> Inr g')"

section \<open>Notions of the claims\<close>

text \<open>
  The children of a node, as the claims name them: the entries of its adjacency list
  that are not its predecessor.
\<close>

definition children :: "Node \<Rightarrow> node_ptr list" where
  "children n = filter (is_child n) (adj_list n)"


text \<open>An edge joins two nodes when they are its endpoints, in either orientation.\<close>

definition joins :: "Edge \<Rightarrow> node_ptr \<Rightarrow> node_ptr \<Rightarrow> bool" where
  "joins e a b = ((source e = a \<and> destination e = b) \<or> (source e = b \<and> destination e = a))"

definition adjacency :: "Graph \<Rightarrow> node_ptr list list" where
  "adjacency g = map adj_list (nodes g)"

text \<open>
  The adjacency table of a graph is the list of the adjacency lists of its nodes;
  \<open>bfs\<close> and \<open>prim\<close> never change it. \<open>hops A s k v\<close> says that \<open>k\<close> steps along
  adjacency entries lead from \<open>s\<close> to \<open>v\<close>. \<open>wf_adj\<close> is the invariant of the data
  model that every adjacency entry refers to a node of the store.
\<close>

definition arc :: "node_ptr list list \<Rightarrow> node_ptr \<Rightarrow> node_ptr \<Rightarrow> bool" where
  "arc A u v \<longleftrightarrow> u < length A \<and> v \<in> set (A ! u)"

inductive hops :: "node_ptr list list \<Rightarrow> node_ptr \<Rightarrow> nat \<Rightarrow> node_ptr \<Rightarrow> bool" for A s where
  hops_0: "hops A s 0 s"
| hops_Suc: "hops A s k u \<Longrightarrow> arc A u v \<Longrightarrow> hops A s (Suc k) v"

definition wf_adj :: "node_ptr list list \<Rightarrow> bool" where
  "wf_adj A = list_all (\<lambda>as. list_all (\<lambda>v. v < length A) as) A"

definition reachable :: "node_ptr list list \<Rightarrow> node_ptr \<Rightarrow> node_ptr \<Rightarrow> bool" where
  "reachable A s v \<longleftrightarrow> (\<exists>k. hops A s k v)"

definition hop_distance :: "node_ptr list list \<Rightarrow> node_ptr \<Rightarrow> node_ptr \<Rightarrow> int \<Rightarrow> bool" where
  "hop_distance A s v d \<longleftrightarrow> 0 \<le> d \<and> hops A s (nat d) v \<and> (\<forall>k. hops A s k v \<longrightarrow> d \<le> int k)"

fun follow_pred :: "Node list \<Rightarrow> nat \<Rightarrow> node_ptr \<Rightarrow> node_ptr option" where
  "follow_pred ns 0 v = Some v"
| "follow_pred ns (Suc k) v =
     (if v < length ns then
        case predecessor (ns ! v) of None \<Rightarrow> None | Some p \<Rightarrow> follow_pred ns k p
      else None)"

text \<open>
  The graphs whose adjacency entries were all created by \<open>insert_edge\<close>: the store
  after \<open>reset\<close> and the reading of the header, grown by \<open>insert_node\<close> of nodes
  without neighbours and by \<open>insert_edge\<close>. The search state of the nodes (colour,
  distance, predecessor) may be anything, for instance what an earlier \<open>bfs\<close> or
  \<open>prim\<close> left.
\<close>

inductive built :: "Graph \<Rightarrow> bool" where
  built_start: "built \<lparr>nodes = [], edges = [], tot_nodes = n, tot_edges = m\<rparr>"
| built_node: "built g \<Longrightarrow> adj_list nd = [] \<Longrightarrow> built (insert_node nd g)"
| built_edge: "built g \<Longrightarrow> insert_edge e g = Inr g' \<Longrightarrow> built g'"
| built_search: "built g \<Longrightarrow> map adj_list (nodes g') = map adj_list (nodes g) \<Longrightarrow>
    edges g' = edges g \<Longrightarrow> built g'"

text \<open>
  Every adjacency entry has an edge that \<open>get_edge\<close> finds; every stored edge has its
  two adjacency entries; every recorded call of \<open>get_edge\<close> found an edge.
\<close>

definition edge_backed :: "Edge list \<Rightarrow> node_ptr list list \<Rightarrow> bool" where
  "edge_backed es A =
     list_all (\<lambda>(u, as). list_all (\<lambda>v. find_edge es 0 u v \<noteq> None) as) (zip [0..<length A] A)"

definition edges_adjacent :: "Edge list \<Rightarrow> node_ptr list list \<Rightarrow> bool" where
  "edges_adjacent es A =
     list_all (\<lambda>e. source e < length A \<and> destination e < length A \<and>
                   destination e \<in> set (A ! source e) \<and> source e \<in> set (A ! destination e)) es"

definition lookups_found :: "Edge list \<Rightarrow> lookup list \<Rightarrow> bool" where
  "lookups_found es lg = list_all (\<lambda>(u, v). find_edge es 0 u v \<noteq> None) lg"

text \<open>
  The states of \<open>prim(src)\<close> at the head of its \<open>while\<close> loop: the state after the
  initialisation (\<open>prim_start\<close> is the node vector, the queue holds \<open>src\<close>), and every
  state that one more iteration leads to.
\<close>

definition prim_start :: "Node list \<Rightarrow> node_ptr \<Rightarrow> Node list" where
  "prim_start ns src =
     (map prim_reset ns)[src := (map prim_reset ns ! src)\<lparr>distance := 0, predecessor := None\<rparr>]"

inductive prim_reaches :: "Graph \<Rightarrow> node_ptr \<Rightarrow> prim_state \<Rightarrow> bool" for g src where
  prim_reaches_start: "src < length (nodes g) \<Longrightarrow>
     prim_reaches g src
       (prim_start (nodes g) src, pq_push (prim_start (nodes g) src) [] src, {}, [])"
| prim_reaches_iter: "prim_reaches g src (ns, pq, in_mst, lg) \<Longrightarrow> pq \<noteq> [] \<Longrightarrow>
     prim_iter (edges g) (ns, pq, in_mst, lg) = Inr st' \<Longrightarrow> prim_reaches g src st'"

text \<open>
  The tree that the predecessor pointers describe: node \<open>v\<close> with predecessor \<open>p\<close> is
  attached by the edge that \<open>get_edge(p, v)\<close> finds. A list of edge positions is a
  spanning tree when it has one edge less than the graph has nodes and its edges
  connect every node to node 0.
\<close>

definition pred_edge :: "Graph \<Rightarrow> node_ptr \<Rightarrow> edge_ptr option" where
  "pred_edge g v = (case predecessor (nodes g ! v) of None \<Rightarrow> None | Some p \<Rightarrow> get_edge g p v)"

definition tree_weight :: "Graph \<Rightarrow> int" where
  "tree_weight g =
     sum_list (map (\<lambda>v. case pred_edge g v of None \<Rightarrow> 0 | Some e \<Rightarrow> weight (edges g ! e))
       [0..<length (nodes g)])"

definition edge_weight_sum :: "Graph \<Rightarrow> edge_ptr list \<Rightarrow> int" where
  "edge_weight_sum g T = sum_list (map (\<lambda>i. weight (edges g ! i)) T)"

definition reach_round :: "Edge list \<Rightarrow> node_ptr list \<Rightarrow> node_ptr list" where
  "reach_round es vs =
     remdups (vs @ concat (map (\<lambda>e. (if source e \<in> set vs then [destination e] else []) @
                                   (if destination e \<in> set vs then [source e] else [])) es))"

definition spanning_tree :: "Graph \<Rightarrow> edge_ptr list \<Rightarrow> bool" where
  "spanning_tree g T =
     (distinct T \<and> list_all (\<lambda>i. i < length (edges g)) T \<and>
      Suc (length T) = length (nodes g) \<and>
      list_all (\<lambda>v. v \<in> set ((reach_round (map (\<lambda>i. edges g ! i) T) ^^ length (nodes g)) [0]))
        [0..<length (nodes g)])"

section \<open>Example graphs\<close>

text \<open>
  The graphs that the concrete statements below are about, as \<open>load\<close> builds them from
  a header and edge lines.
\<close>

definition triangle :: Graph where
  "triangle = fst (load 3 3 [(0, 1, 5), (0, 2, 10), (1, 2, 1)])"

definition kite :: Graph where
  "kite = fst (load 5 6 [(0, 1, 5), (0, 2, 10), (0, 3, 20), (0, 4, 30), (1, 4, 1), (2, 4, 2)])"

definition parallel_pair :: Graph where
  "parallel_pair = fst (load 2 2 [(0, 1, 5), (0, 1, 1)])"

definition path4 :: Graph where
  "path4 = fst (load 4 3 [(0, 1, 1), (1, 2, 2), (2, 3, 1)])"

definition triangle_nodes :: "int \<Rightarrow> node_ptr option \<Rightarrow> Node list" where
  "triangle_nodes d2 p2 =
     [\<lparr>data = 0, color = white, distance = 0, predecessor = None, adj_list = [1, 2]\<rparr>,
      \<lparr>data = 1, color = white, distance = 5, predecessor = Some 0, adj_list = [0, 2]\<rparr>,
      \<lparr>data = 2, color = white, distance = d2, predecessor = p2, adj_list = [0, 1]\<rparr>]"

section \<open>Loop invariants\<close>

text \<open>
  The invariant of the queue loop of \<open>bfs\<close>, for the adjacency table \<open>A\<close> and the
  source \<open>s\<close>: the gray nodes are the queue; the distance of a node that is not white
  is its hop distance; white nodes are untouched; the predecessor of a node that is
  not white is a neighbour one step closer; a black node has no white neighbour; the
  distances along the queue do not decrease and differ by at most one.
\<close>

definition inv_static :: "node_ptr list list \<Rightarrow> Node list \<Rightarrow> bool" where
  "inv_static A ns \<longleftrightarrow> map adj_list ns = A \<and> wf_adj A"

definition inv_src :: "node_ptr \<Rightarrow> Node list \<Rightarrow> bool" where
  "inv_src s ns \<longleftrightarrow>
     s < length ns \<and> color (ns ! s) \<noteq> white \<and> distance (ns ! s) = 0 \<and> predecessor (ns ! s) = None"

definition inv_queue :: "Node list \<Rightarrow> node_ptr list \<Rightarrow> bool" where
  "inv_queue ns q \<longleftrightarrow> distinct q \<and> (\<forall>v. v \<in> set q \<longleftrightarrow> v < length ns \<and> color (ns ! v) = gray)"

definition inv_dist :: "node_ptr list list \<Rightarrow> node_ptr \<Rightarrow> Node list \<Rightarrow> bool" where
  "inv_dist A s ns \<longleftrightarrow>
     (\<forall>v < length ns. color (ns ! v) \<noteq> white \<longrightarrow>
        0 \<le> distance (ns ! v) \<and> hops A s (nat (distance (ns ! v))) v \<and>
        (\<forall>k. hops A s k v \<longrightarrow> distance (ns ! v) \<le> int k))"

definition inv_white :: "Node list \<Rightarrow> bool" where
  "inv_white ns \<longleftrightarrow>
     (\<forall>v < length ns. color (ns ! v) = white \<longrightarrow>
        distance (ns ! v) = INT_MAX \<and> predecessor (ns ! v) = None)"

definition inv_pred :: "node_ptr list list \<Rightarrow> node_ptr \<Rightarrow> Node list \<Rightarrow> bool" where
  "inv_pred A s ns \<longleftrightarrow>
     (\<forall>v < length ns. color (ns ! v) \<noteq> white \<longrightarrow> v \<noteq> s \<longrightarrow>
        (\<exists>p < length ns. predecessor (ns ! v) = Some p \<and> color (ns ! p) \<noteq> white \<and> arc A p v \<and>
           distance (ns ! v) = distance (ns ! p) + 1))"

definition inv_black :: "node_ptr list list \<Rightarrow> Node list \<Rightarrow> bool" where
  "inv_black A ns \<longleftrightarrow>
     (\<forall>u < length ns. color (ns ! u) = black \<longrightarrow> (\<forall>v \<in> set (A ! u). color (ns ! v) \<noteq> white))"

definition inv_sorted :: "Node list \<Rightarrow> node_ptr list \<Rightarrow> bool" where
  "inv_sorted ns q \<longleftrightarrow>
     sorted (map (\<lambda>v. distance (ns ! v)) q) \<and>
     (q \<noteq> [] \<longrightarrow> distance (ns ! last q) \<le> distance (ns ! hd q) + 1)"

definition bfs_inv :: "node_ptr list list \<Rightarrow> node_ptr \<Rightarrow> Node list \<Rightarrow> node_ptr list \<Rightarrow> bool" where
  "bfs_inv A s ns q \<longleftrightarrow>
     inv_static A ns \<and> inv_src s ns \<and> inv_queue ns q \<and> inv_dist A s ns \<and> inv_white ns \<and>
     inv_pred A s ns \<and> inv_black A ns \<and> inv_sorted ns q"

definition discover :: "node_ptr \<Rightarrow> node_ptr \<Rightarrow> Node list \<Rightarrow> Node list" where
  "discover u a ns = ns[a := (ns ! a)\<lparr>color := gray, predecessor := Some u,
                                   distance := distance (ns ! u) + 1\<rparr>]"

definition blacken :: "node_ptr \<Rightarrow> Node list \<Rightarrow> Node list" where
  "blacken u ns = ns[u := (ns ! u)\<lparr>color := black\<rparr>]"

text \<open>
  What \<open>prim\<close> keeps of a node vector (identities, colours, adjacency; distances only
  decrease), and the invariant of its loop: a neighbour of a committed node is
  committed, or its distance is at most the weight of the edge that \<open>get_edge\<close> finds.
\<close>

definition prim_kept :: "Node list \<Rightarrow> Node list \<Rightarrow> bool" where
  "prim_kept ns ns' \<longleftrightarrow>
     map data ns' = map data ns \<and> map color ns' = map color ns \<and>
     map adj_list ns' = map adj_list ns \<and>
     (\<forall>v < length ns. distance (ns' ! v) \<le> distance (ns ! v))"

text \<open>
  Two node vectors with the same distances, predecessors and adjacency lists: what
  \<open>prim\<close> reads of the nodes.
\<close>

definition same_search :: "Node list \<Rightarrow> Node list \<Rightarrow> bool" where
  "same_search ns ns' \<longleftrightarrow>
     map distance ns' = map distance ns \<and> map predecessor ns' = map predecessor ns \<and>
     map adj_list ns' = map adj_list ns"

definition settled :: "Edge list \<Rightarrow> Node list \<Rightarrow> node_ptr set \<Rightarrow> bool" where
  "settled es ns in_mst \<longleftrightarrow>
     (\<forall>u \<in> in_mst. u < length ns \<and>
        (\<forall>v \<in> set (adj_list (ns ! u)). v \<in> in_mst \<or>
           (v < length ns \<and>
            (\<exists>e. find_edge es 0 u v = Some e \<and> distance (ns ! v) \<le> weight (es ! e)))))"

section \<open>Lookup: \<open>get_node\<close> and \<open>get_edge\<close>\<close>



lemma find_node_data: "find_node ns i d = find_node ns' i d" if "map data ns = map data ns'"
  using that
proof (induction ns arbitrary: ns' i)
  case Nil
  then show ?case by simp
next
  case (Cons n ns)
  then obtain n' ms where "ns' = n' # ms" "data n = data n'" "map data ns = map data ms"
    by (cases ns') auto
  with Cons.IH[of ms "Suc i"] show ?case by simp
qed

lemma find_edge_sym: "find_edge es i a b = find_edge es i b a"
  by (induction es arbitrary: i) auto

lemma find_edge_None: "find_edge es i a b = None \<longleftrightarrow> (\<forall>e \<in> set es. \<not> joins e a b)"
  by (induction es arbitrary: i) (auto simp: joins_def)

lemma find_edge_Some:
  "find_edge es i a b = Some k \<longleftrightarrow>
     i \<le> k \<and> k - i < length es \<and> joins (es ! (k - i)) a b \<and> (\<forall>j < k - i. \<not> joins (es ! j) a b)"
proof (induction es arbitrary: i)
  case Nil
  then show ?case by simp
next
  case (Cons e es)
  show ?case
  proof (cases "joins e a b")
    case True
    then have "find_edge (e # es) i a b = Some i" by (simp add: joins_def)
    moreover have "(i \<le> k \<and> k - i < length (e # es) \<and> joins ((e # es) ! (k - i)) a b \<and>
        (\<forall>j < k - i. \<not> joins ((e # es) ! j) a b)) \<longleftrightarrow> k = i"
    proof
      assume h: "i \<le> k \<and> k - i < length (e # es) \<and> joins ((e # es) ! (k - i)) a b \<and>
        (\<forall>j < k - i. \<not> joins ((e # es) ! j) a b)"
      show "k = i"
      proof (rule ccontr)
        assume "k \<noteq> i"
        with h have "0 < k - i" by simp
        with h have "\<not> joins ((e # es) ! 0) a b" by blast
        with True show False by simp
      qed
    next
      assume "k = i"
      with True show "i \<le> k \<and> k - i < length (e # es) \<and> joins ((e # es) ! (k - i)) a b \<and>
        (\<forall>j < k - i. \<not> joins ((e # es) ! j) a b)" by simp
    qed
    ultimately show ?thesis by auto
  next
    case False
    then have "find_edge (e # es) i a b = find_edge es (Suc i) a b" by (auto simp: joins_def)
    moreover have "(i \<le> k \<and> k - i < length (e # es) \<and> joins ((e # es) ! (k - i)) a b \<and>
        (\<forall>j < k - i. \<not> joins ((e # es) ! j) a b)) \<longleftrightarrow>
      (Suc i \<le> k \<and> k - Suc i < length es \<and> joins (es ! (k - Suc i)) a b \<and>
        (\<forall>j < k - Suc i. \<not> joins (es ! j) a b))" (is "?L \<longleftrightarrow> ?R")
    proof
      assume l: ?L
      with False have "k \<noteq> i" by auto
      moreover from l have "i \<le> k" by blast
      ultimately have ki: "k - i = Suc (k - Suc i)" by arith
      have "\<not> joins (es ! j) a b" if "j < k - Suc i" for j
      proof -
        from that ki have "Suc j < k - i" by simp
        with l have "\<not> joins ((e # es) ! Suc j) a b" by blast
        then show ?thesis by simp
      qed
      with l ki show ?R by auto
    next
      assume r: ?R
      then have "Suc i \<le> k" by blast
      then have ki: "k - i = Suc (k - Suc i)" by arith
      have "\<not> joins ((e # es) ! j) a b" if "j < k - i" for j
      proof (cases j)
        case 0
        with False show ?thesis by simp
      next
        case (Suc j')
        with that ki have "j' < k - Suc i" by simp
        with r Suc show ?thesis by simp
      qed
      with r ki show ?L by auto
    qed
    ultimately show ?thesis using Cons.IH[of "Suc i"] by simp
  qed
qed

text \<open>
  C9: \<open>get_edge(a, b)\<close> and \<open>get_edge(b, a)\<close> return the same result for every pair of
  node references; the result is the first stored edge that joins \<open>a\<close> and \<open>b\<close> in
  either orientation, and it is null exactly when no stored edge joins them.
\<close>

theorem get_edge_symmetric_first_match:
  "get_edge g a b = get_edge g b a \<and>
   (get_edge g a b = Some k \<longleftrightarrow>
      k < length (edges g) \<and> joins (edges g ! k) a b \<and> (\<forall>j < k. \<not> joins (edges g ! j) a b)) \<and>
   (get_edge g a b = None \<longleftrightarrow> (\<forall>e \<in> set (edges g). \<not> joins e a b))"
  unfolding get_edge_def
  using find_edge_sym[of "edges g" 0 a b] find_edge_Some[of "edges g" 0 a b k]
    find_edge_None[of "edges g" 0 a b]
  by simp

theorem get_edge_symmetric_first_match_witness:
  "get_edge (fst (load 3 3 [(0, 1, 4), (1, 0, 7), (1, 2, 5)])) 1 0 = Some 0 \<and>
   get_edge (fst (load 3 3 [(0, 1, 4), (1, 0, 7), (1, 2, 5)])) 0 1 = Some 0 \<and>
   get_edge (fst (load 3 3 [(0, 1, 4), (1, 0, 7), (1, 2, 5)])) 0 2 = None \<and>
   get_edge (fst (load 3 3 [(0, 1, 4), (1, 0, 7), (1, 2, 5)])) 2 0 = None"
proof -
  let ?g = "fst (load 3 3 [(0, 1, 4), (1, 0, 7), (1, 2, 5)])"
  have e: "edges ?g = [\<lparr>source = 0, destination = 1, weight = 4\<rparr>,
      \<lparr>source = 1, destination = 0, weight = 7\<rparr>, \<lparr>source = 1, destination = 2, weight = 5\<rparr>]"
    by code_simp
  have "0 < length (edges ?g) \<and> joins (edges ?g ! 0) 1 0 \<and> (\<forall>j < 0. \<not> joins (edges ?g ! j) 1 0)"
    by (simp add: e joins_def)
  then have a: "get_edge ?g 1 0 = Some 0"
    using get_edge_symmetric_first_match[of ?g 1 0 0] by blast
  have "\<forall>e \<in> set (edges ?g). \<not> joins e 0 2"
    by (simp add: e joins_def)
  then have b: "get_edge ?g 0 2 = None"
    using get_edge_symmetric_first_match[of ?g 0 2 0] by blast
  from a b show ?thesis
    using get_edge_symmetric_first_match[of ?g 0 1 0] get_edge_symmetric_first_match[of ?g 2 0 0]
    by simp
qed

section \<open>Shape classification: what the loops compute\<close>

lemma count_children_filter:
  "count_children n as c = c + int (length (filter (is_child n) as))"
  by (induction as arbitrary: c) auto

lemma collect_children_filter:
  "collect_children n as cs = cs @ filter (is_child n) as"
  by (induction as arbitrary: cs) auto

lemma is_binary_nodes_iff:
  "is_binary_nodes ns \<longleftrightarrow> (\<forall>n \<in> set ns. length (children n) \<le> 2)"
  by (induction ns) (auto simp: count_children_filter children_def)

lemma is_complete_binary_nodes_iff:
  "is_complete_binary_nodes ns \<longleftrightarrow> (\<forall>n \<in> set ns. length (children n) \<noteq> 1)"
proof (induction ns)
  case Nil
  then show ?case by simp
next
  case (Cons n ns)
  have "(children n \<noteq> [] \<and> length (children n) < 2) \<longleftrightarrow> length (children n) = 1"
    by (cases "children n") auto
  with Cons show ?case
    by (simp add: collect_children_filter children_def[symmetric] Let_def)
qed

text \<open>
  C5: \<open>is_binary\<close> returns false if and only if some node of the store has more than
  two children (entries of its adjacency list that are not its predecessor); it
  returns true if and only if every node has at most two.
\<close>

theorem is_binary_iff_at_most_two_children:
  "(\<not> is_binary g \<longleftrightarrow> (\<exists>n \<in> set (nodes g). length (children n) > 2)) \<and>
   (is_binary g \<longleftrightarrow> (\<forall>n \<in> set (nodes g). length (children n) \<le> 2))"
  unfolding is_binary_def is_binary_nodes_iff by (auto simp: not_le)

theorem is_binary_iff_at_most_two_children_witness:
  "\<not> is_binary
      \<lparr>nodes = [\<lparr>data = 0, color = black, distance = 0, predecessor = None, adj_list = [1, 2, 3]\<rparr>,
                \<lparr>data = 1, color = black, distance = 1, predecessor = Some 0, adj_list = [0]\<rparr>,
                \<lparr>data = 2, color = black, distance = 1, predecessor = Some 0, adj_list = [0]\<rparr>,
                \<lparr>data = 3, color = black, distance = 1, predecessor = Some 0, adj_list = [0]\<rparr>],
       edges = [\<lparr>source = 0, destination = 1, weight = 1\<rparr>,
                \<lparr>source = 0, destination = 2, weight = 2\<rparr>,
                \<lparr>source = 0, destination = 3, weight = 1\<rparr>],
       tot_nodes = 4, tot_edges = 3\<rparr> \<and>
   is_binary
      \<lparr>nodes = [\<lparr>data = 0, color = black, distance = 0, predecessor = None, adj_list = [1, 2]\<rparr>,
                \<lparr>data = 1, color = black, distance = 1, predecessor = Some 0, adj_list = [0]\<rparr>,
                \<lparr>data = 2, color = black, distance = 1, predecessor = Some 0, adj_list = [0]\<rparr>],
       edges = [\<lparr>source = 0, destination = 1, weight = 1\<rparr>,
                \<lparr>source = 0, destination = 2, weight = 2\<rparr>],
       tot_nodes = 3, tot_edges = 2\<rparr>"
    (is "\<not> is_binary ?g3 \<and> is_binary ?g2")
proof -
  have "\<exists>n \<in> set (nodes ?g3). length (children n) > 2"
    by (simp add: children_def is_child_def)
  then have "\<not> is_binary ?g3"
    using is_binary_iff_at_most_two_children[of ?g3] by blast
  moreover have "\<forall>n \<in> set (nodes ?g2). length (children n) \<le> 2"
    by (simp add: children_def is_child_def)
  then have "is_binary ?g2"
    using is_binary_iff_at_most_two_children[of ?g2] by blast
  ultimately show ?thesis by blast
qed

text \<open>
  C3, as claimed: \<open>is_complete_binary\<close> returns true if and only if every node has
  no child or exactly two, so that a node with three children makes it false. On the
  star with centre 0 and leaves 1, 2, 3, searched from the centre by \<open>bfs\<close>, the centre
  has three children and \<open>is_complete_binary\<close> returns true.
\<close>

theorem is_complete_binary_three_children_counterexample:
  "bfs (fst (load 4 3 [(0, 1, 1), (0, 2, 2), (0, 3, 1)])) 0 =
     Inr \<lparr>nodes = [\<lparr>data = 0, color = black, distance = 0, predecessor = None, adj_list = [1, 2, 3]\<rparr>,
                   \<lparr>data = 1, color = black, distance = 1, predecessor = Some 0, adj_list = [0]\<rparr>,
                   \<lparr>data = 2, color = black, distance = 1, predecessor = Some 0, adj_list = [0]\<rparr>,
                   \<lparr>data = 3, color = black, distance = 1, predecessor = Some 0, adj_list = [0]\<rparr>],
          edges = [\<lparr>source = 0, destination = 1, weight = 1\<rparr>,
                   \<lparr>source = 0, destination = 2, weight = 2\<rparr>,
                   \<lparr>source = 0, destination = 3, weight = 1\<rparr>],
          tot_nodes = 4, tot_edges = 3\<rparr> \<and>
   is_complete_binary
      \<lparr>nodes = [\<lparr>data = 0, color = black, distance = 0, predecessor = None, adj_list = [1, 2, 3]\<rparr>,
                \<lparr>data = 1, color = black, distance = 1, predecessor = Some 0, adj_list = [0]\<rparr>,
                \<lparr>data = 2, color = black, distance = 1, predecessor = Some 0, adj_list = [0]\<rparr>,
                \<lparr>data = 3, color = black, distance = 1, predecessor = Some 0, adj_list = [0]\<rparr>],
       edges = [\<lparr>source = 0, destination = 1, weight = 1\<rparr>,
                \<lparr>source = 0, destination = 2, weight = 2\<rparr>,
                \<lparr>source = 0, destination = 3, weight = 1\<rparr>],
       tot_nodes = 4, tot_edges = 3\<rparr> \<and>
   children \<lparr>data = 0, color = black, distance = 0, predecessor = None, adj_list = [1, 2, 3]\<rparr>
     = [1, 2, 3]"
  by code_simp

text \<open>
  C3, amended: \<open>is_complete_binary\<close> returns true if and only if no node of the store
  has exactly one child; it returns false if and only if some node has exactly one. A
  node with two, three or more children does not make it false.
\<close>

theorem is_complete_binary_iff_no_single_child:
  "(is_complete_binary g \<longleftrightarrow> (\<forall>n \<in> set (nodes g). length (children n) \<noteq> 1)) \<and>
   (\<not> is_complete_binary g \<longleftrightarrow> (\<exists>n \<in> set (nodes g). length (children n) = 1))"
  unfolding is_complete_binary_def is_complete_binary_nodes_iff by auto

theorem is_complete_binary_iff_no_single_child_witness:
  "\<not> is_complete_binary
      \<lparr>nodes = [\<lparr>data = 0, color = black, distance = 0, predecessor = None, adj_list = [1]\<rparr>,
                \<lparr>data = 1, color = black, distance = 1, predecessor = Some 0, adj_list = [0, 2]\<rparr>,
                \<lparr>data = 2, color = black, distance = 2, predecessor = Some 1, adj_list = [1]\<rparr>],
       edges = [\<lparr>source = 0, destination = 1, weight = 1\<rparr>,
                \<lparr>source = 1, destination = 2, weight = 2\<rparr>],
       tot_nodes = 3, tot_edges = 2\<rparr> \<and>
   is_complete_binary
      \<lparr>nodes = [\<lparr>data = 0, color = black, distance = 0, predecessor = None, adj_list = [1, 2, 3]\<rparr>,
                \<lparr>data = 1, color = black, distance = 1, predecessor = Some 0, adj_list = [0]\<rparr>,
                \<lparr>data = 2, color = black, distance = 1, predecessor = Some 0, adj_list = [0]\<rparr>,
                \<lparr>data = 3, color = black, distance = 1, predecessor = Some 0, adj_list = [0]\<rparr>],
       edges = [\<lparr>source = 0, destination = 1, weight = 1\<rparr>,
                \<lparr>source = 0, destination = 2, weight = 2\<rparr>,
                \<lparr>source = 0, destination = 3, weight = 1\<rparr>],
       tot_nodes = 4, tot_edges = 3\<rparr>"
    (is "\<not> is_complete_binary ?p \<and> is_complete_binary ?s")
proof -
  have "\<exists>n \<in> set (nodes ?p). length (children n) = 1"
    by (simp add: children_def is_child_def)
  then have "\<not> is_complete_binary ?p"
    using is_complete_binary_iff_no_single_child[of ?p] by blast
  moreover have "\<forall>n \<in> set (nodes ?s). length (children n) \<noteq> 1"
    by (simp add: children_def is_child_def)
  then have "is_complete_binary ?s"
    using is_complete_binary_iff_no_single_child[of ?s] by blast
  ultimately show ?thesis by blast
qed

section \<open>Loading: unknown node identities\<close>

lemma map_update_field:
  "f y = f (xs ! i) \<Longrightarrow> map f (xs[i := y]) = map f xs"
  by (simp add: map_update list_update_same_conv)
     (metis length_map list_update_beyond list_update_id not_le_imp_less nth_map)








lemma insert_nodes_tot_nodes:
  "int (length (nodes g) + k) \<le> tot_nodes g \<Longrightarrow> tot_nodes (insert_nodes k i g) = tot_nodes g"
proof (induction k arbitrary: i g)
  case 0
  then show ?case by simp
next
  case (Suc k)
  let ?g = "insert_node (new_Node i) g"
  from Suc.prems have "\<not> size_gt (Suc (length (nodes g))) (tot_nodes g)"
    by (auto simp: size_gt_def)
  then have t: "tot_nodes ?g = tot_nodes g" and l: "length (nodes ?g) = Suc (length (nodes g))"
    by (simp_all add: insert_node_def Let_def)
  with Suc.prems have "int (length (nodes ?g) + k) \<le> tot_nodes ?g" by simp
  from Suc.IH[OF this] t show ?case by simp
qed

















section \<open>Graphs built by \<open>insert_node\<close> and \<open>insert_edge\<close>\<close>

lemma wf_adj_iff: "wf_adj A \<longleftrightarrow> (\<forall>u < length A. \<forall>v \<in> set (A ! u). v < length A)"
  unfolding wf_adj_def list_all_iff by (metis in_set_conv_nth)

lemma edge_backed_iff:
  "edge_backed es A \<longleftrightarrow> (\<forall>u < length A. \<forall>v \<in> set (A ! u). find_edge es 0 u v \<noteq> None)"
proof -
  have "(\<forall>p \<in> set (zip [0..<length A] A). P (fst p) (snd p)) \<longleftrightarrow> (\<forall>u < length A. P u (A ! u))"
    for P :: "nat \<Rightarrow> nat list \<Rightarrow> bool"
  proof
    assume a: "\<forall>p \<in> set (zip [0..<length A] A). P (fst p) (snd p)"
    show "\<forall>u < length A. P u (A ! u)"
    proof (intro allI impI)
      fix u assume u: "u < length A"
      then have "(u, A ! u) \<in> set (zip [0..<length A] A)"
        by (auto simp: set_zip intro!: exI[of _ u])
      with a show "P u (A ! u)" by fastforce
    qed
  next
    assume "\<forall>u < length A. P u (A ! u)"
    then show "\<forall>p \<in> set (zip [0..<length A] A). P (fst p) (snd p)"
      by (auto simp: set_zip)
  qed
  from this[of "\<lambda>u as. \<forall>v \<in> set as. find_edge es 0 u v \<noteq> None"]
  show ?thesis unfolding edge_backed_def list_all_iff by (simp add: case_prod_beta)
qed

lemma edge_backed_joins:
  "edge_backed es A \<longleftrightarrow> (\<forall>u < length A. \<forall>v \<in> set (A ! u). \<exists>e \<in> set es. joins e u v)"
  unfolding edge_backed_iff by (simp add: find_edge_None)

lemma insert_edge_adjacency:
  assumes "insert_edge e g = Inr g'"
  shows "source e < length (nodes g)" "destination e < length (nodes g)"
    "edges g' = edges g @ [e]" "length (nodes g') = length (nodes g)"
    "\<And>u. u < length (nodes g) \<Longrightarrow> set (adj_list (nodes g' ! u)) \<subseteq>
       set (adj_list (nodes g ! u)) \<union> (if u = source e then {destination e} else {}) \<union>
       (if u = destination e then {source e} else {})"
proof -
  let ?ns1 = "(nodes g)[source e := add_adjacent (destination e) (nodes g ! source e)]"
  let ?ns2 = "?ns1[destination e := add_adjacent (source e) (?ns1 ! destination e)]"
  from assms show s: "source e < length (nodes g)" and d: "destination e < length (nodes g)"
    by (auto simp: insert_edge_def split: if_splits)
  from assms s d have g': "nodes g' = ?ns2" "edges g' = edges g @ [e]"
    by (auto simp: insert_edge_def Let_def)
  then show "edges g' = edges g @ [e]" "length (nodes g') = length (nodes g)" by simp_all
  fix u assume u: "u < length (nodes g)"
  have 1: "set (adj_list (?ns1 ! u)) \<subseteq>
      set (adj_list (nodes g ! u)) \<union> (if u = source e then {destination e} else {})"
    using u by (auto simp: nth_list_update add_adjacent_def)
  have 2: "set (adj_list (?ns2 ! u)) \<subseteq>
      set (adj_list (?ns1 ! u)) \<union> (if u = destination e then {source e} else {})"
    using u by (auto simp: nth_list_update add_adjacent_def)
  from 1 2 show "set (adj_list (nodes g' ! u)) \<subseteq>
       set (adj_list (nodes g ! u)) \<union> (if u = source e then {destination e} else {}) \<union>
       (if u = destination e then {source e} else {})"
    unfolding g' by blast
qed

lemma built_invariant:
  "built g \<Longrightarrow> wf_adj (adjacency g) \<and> edge_backed (edges g) (adjacency g)"
proof (induction rule: built.induct)
  case (built_start n m)
  show ?case by (simp add: wf_adj_def edge_backed_def adjacency_def)
next
  case (built_node g nd)
  then have wf: "wf_adj (adjacency g)" and eb: "edge_backed (edges g) (adjacency g)" by simp_all
  have A: "adjacency (insert_node nd g) = adjacency g @ [[]]"
    using built_node.hyps(2) by (simp add: adjacency_def insert_node_def Let_def)
  have E: "edges (insert_node nd g) = edges g" by (simp add: insert_node_def Let_def)
  have "wf_adj (adjacency g @ [[]])"
    using wf unfolding wf_adj_iff by (auto simp: nth_append less_Suc_eq)
  moreover have "edge_backed (edges g) (adjacency g @ [[]])"
    using eb unfolding edge_backed_iff by (auto simp: nth_append less_Suc_eq)
  ultimately show ?case by (simp add: A E)
next
  case (built_edge g e g')
  then have wf: "wf_adj (adjacency g)" and eb: "edge_backed (edges g) (adjacency g)" by simp_all
  note ie = insert_edge_adjacency[OF built_edge.hyps(2)]
  have len: "length (adjacency g') = length (adjacency g)" "length (adjacency g) = length (nodes g)"
    using ie(4) by (simp_all add: adjacency_def)
  have sub: "set (adjacency g' ! u) \<subseteq> set (adjacency g ! u) \<union>
      (if u = source e then {destination e} else {}) \<union>
      (if u = destination e then {source e} else {})" if "u < length (nodes g)" for u
    using ie(5)[OF that] that ie(4) by (simp add: adjacency_def)
  have "wf_adj (adjacency g')"
    unfolding wf_adj_iff
  proof (intro allI impI ballI)
    fix u v assume u: "u < length (adjacency g')" and v: "v \<in> set (adjacency g' ! u)"
    from u len have u': "u < length (nodes g)" by simp
    from sub[OF u'] v have "v \<in> set (adjacency g ! u) \<or> v = destination e \<or> v = source e"
      by (auto split: if_splits)
    with wf u' len ie(1,2) show "v < length (adjacency g')" unfolding wf_adj_iff by auto
  qed
  moreover have "edge_backed (edges g') (adjacency g')"
    unfolding edge_backed_joins
  proof (intro allI impI ballI)
    fix u v assume u: "u < length (adjacency g')" and v: "v \<in> set (adjacency g' ! u)"
    from u len have u': "u < length (nodes g)" by simp
    from sub[OF u'] v have "v \<in> set (adjacency g ! u) \<or> (u = source e \<and> v = destination e) \<or>
        (u = destination e \<and> v = source e)"
      by (auto split: if_splits)
    then show "\<exists>e' \<in> set (edges g'). joins e' u v"
    proof (elim disjE)
      assume "v \<in> set (adjacency g ! u)"
      with eb u' len obtain e' where "e' \<in> set (edges g)" "joins e' u v"
        unfolding edge_backed_joins by auto
      then show ?thesis by (auto simp: ie(3))
    qed (auto simp: ie(3) joins_def)
  qed
  ultimately show ?case by simp
next
  case (built_search g g')
  then show ?case by (simp add: adjacency_def)
qed

lemma built_load_line: "built g \<Longrightarrow> built (fst (load_line ln (g, out)))"
  by (auto simp: load_line_def Let_def split: prod.splits option.splits sum.splits
      intro: built_edge)

lemma built_load_lines:
  "built g \<Longrightarrow> built (fst (foldl (\<lambda>st ln. load_line ln st) (g, out) lns))"
proof (induction lns arbitrary: g out)
  case Nil
  then show ?case by simp
next
  case (Cons ln lns)
  obtain g' out' where st: "load_line ln (g, out) = (g', out')" by (cases "load_line ln (g, out)")
  with built_load_line[OF Cons.prems, of ln out] have "built g'" by simp
  from Cons.IH[OF this, of out'] st show ?case by simp
qed

lemma built_insert_nodes: "built g \<Longrightarrow> built (insert_nodes k i g)"
proof (induction k arbitrary: i g)
  case 0
  then show ?case by simp
next
  case (Suc k)
  have "built (insert_node (new_Node i) g)"
    using Suc.prems by (rule built_node) (simp add: new_Node_def)
  from Suc.IH[OF this] show ?case by simp
qed

lemma built_load: "built (fst (load n m lns))"
  unfolding load_def Let_def
  by (intro built_load_lines built_insert_nodes built_start)

lemma insert_edge_adjacency_sup:
  assumes "insert_edge e g = Inr g'" "u < length (nodes g)"
  shows "set (adj_list (nodes g ! u)) \<union> (if u = source e then {destination e} else {}) \<union>
       (if u = destination e then {source e} else {}) \<subseteq> set (adj_list (nodes g' ! u))"
proof -
  let ?ns1 = "(nodes g)[source e := add_adjacent (destination e) (nodes g ! source e)]"
  let ?ns2 = "?ns1[destination e := add_adjacent (source e) (?ns1 ! destination e)]"
  from assms have s: "source e < length (nodes g)" and d: "destination e < length (nodes g)"
    by (auto simp: insert_edge_def split: if_splits)
  from assms s d have g': "nodes g' = ?ns2"
    by (auto simp: insert_edge_def Let_def)
  have 1: "set (adj_list (nodes g ! u)) \<union> (if u = source e then {destination e} else {})
      \<subseteq> set (adj_list (?ns1 ! u))"
    using assms(2) by (auto simp: nth_list_update add_adjacent_def)
  have 2: "set (adj_list (?ns1 ! u)) \<union> (if u = destination e then {source e} else {})
      \<subseteq> set (adj_list (?ns2 ! u))"
    using assms(2) by (auto simp: nth_list_update add_adjacent_def)
  from 1 2 show ?thesis unfolding g' by blast
qed

lemma built_edges_adjacent: "built g \<Longrightarrow> edges_adjacent (edges g) (adjacency g)"
proof (induction rule: built.induct)
  case (built_start n m)
  show ?case by (simp add: edges_adjacent_def)
next
  case (built_node g nd)
  have A: "adjacency (insert_node nd g) = adjacency g @ [[]]"
    using built_node.hyps(2) by (simp add: adjacency_def insert_node_def Let_def)
  have E: "edges (insert_node nd g) = edges g" by (simp add: insert_node_def Let_def)
  from built_node.IH show ?case
    unfolding A E edges_adjacent_def list_all_iff by (auto simp: nth_append)
next
  case (built_edge g e g')
  note ie = insert_edge_adjacency[OF built_edge.hyps(2)]
  have len: "length (adjacency g') = length (nodes g)" "length (adjacency g) = length (nodes g)"
    using ie(4) by (simp_all add: adjacency_def)
  have sup: "set (adjacency g ! u) \<union> (if u = source e then {destination e} else {}) \<union>
       (if u = destination e then {source e} else {}) \<subseteq> set (adjacency g' ! u)"
    if "u < length (nodes g)" for u
    using insert_edge_adjacency_sup[OF built_edge.hyps(2) that] that ie(4)
    by (simp add: adjacency_def)
  have "source x < length (adjacency g') \<and> destination x < length (adjacency g') \<and>
      destination x \<in> set (adjacency g' ! source x) \<and> source x \<in> set (adjacency g' ! destination x)"
    if x: "x \<in> set (edges g')" for x
  proof (cases "x = e")
    case True
    from sup[OF ie(1)] sup[OF ie(2)] ie(1,2) show ?thesis unfolding True len by auto
  next
    case False
    with x ie(3) have "x \<in> set (edges g)" by simp
    with built_edge.IH have o: "source x < length (nodes g)" "destination x < length (nodes g)"
      "destination x \<in> set (adjacency g ! source x)" "source x \<in> set (adjacency g ! destination x)"
      unfolding edges_adjacent_def list_all_iff len by auto
    from sup[OF o(1)] sup[OF o(2)] o show ?thesis unfolding len by auto
  qed
  then show ?case unfolding edges_adjacent_def list_all_iff by blast
next
  case (built_search g g')
  then show ?case by (simp add: adjacency_def)
qed

lemma built_arc_iff_edge:
  assumes "built g"
  shows "arc (adjacency g) u v \<longleftrightarrow> (\<exists>e \<in> set (edges g). joins e u v)"
proof
  assume "arc (adjacency g) u v"
  then have "u < length (adjacency g)" "v \<in> set (adjacency g ! u)" by (simp_all add: arc_def)
  with built_invariant[OF assms] show "\<exists>e \<in> set (edges g). joins e u v"
    unfolding edge_backed_joins by blast
next
  assume "\<exists>e \<in> set (edges g). joins e u v"
  then obtain e where e: "e \<in> set (edges g)" "joins e u v" by blast
  with built_edges_adjacent[OF assms]
  have "source e < length (adjacency g)" "destination e < length (adjacency g)"
    "destination e \<in> set (adjacency g ! source e)" "source e \<in> set (adjacency g ! destination e)"
    unfolding edges_adjacent_def list_all_iff by auto
  with e(2) show "arc (adjacency g) u v" unfolding joins_def arc_def by auto
qed

section \<open>Breadth-first search: shortest hop counts\<close>

lemma discover_length [simp]: "length (discover u a ns) = length ns"
  by (simp add: discover_def)

lemma discover_other: "v \<noteq> a \<Longrightarrow> discover u a ns ! v = ns ! v"
  by (simp add: discover_def)

lemma discover_self:
  "a < length ns \<Longrightarrow> discover u a ns ! a =
     (ns ! a)\<lparr>color := gray, predecessor := Some u, distance := distance (ns ! u) + 1\<rparr>"
  by (simp add: discover_def)

lemma discover_adj: "map adj_list (discover u a ns) = map adj_list ns"
  unfolding discover_def by (rule map_update_field) simp

lemma color_cases: "c \<noteq> white \<Longrightarrow> c \<noteq> gray \<Longrightarrow> c = black"
  by (cases c) auto

lemma head_least:
  assumes "inv_sorted ns (u # q)" "z \<in> set (u # q)"
  shows "distance (ns ! u) \<le> distance (ns ! z)"
  using assms by (auto simp: inv_sorted_def)

lemma frontier:
  assumes st: "inv_static A ns" and src: "inv_src s ns" and qu: "inv_queue ns (u # q)"
    and di: "inv_dist A s ns" and bl: "inv_black A ns" and so: "inv_sorted ns (u # q)"
  shows "hops A s k x \<Longrightarrow> int k \<le> distance (ns ! u) \<Longrightarrow> x < length ns \<and> color (ns ! x) \<noteq> white"
proof (induction rule: hops.induct)
  case hops_0
  from src show ?case by (simp add: inv_src_def)
next
  case (hops_Suc k y x)
  then have y: "y < length ns" "color (ns ! y) \<noteq> white" by simp_all
  with di hops_Suc.hyps(1) have "distance (ns ! y) \<le> int k" by (simp add: inv_dist_def)
  with hops_Suc.prems have lt: "distance (ns ! y) < distance (ns ! u)" by simp
  have "color (ns ! y) \<noteq> gray"
  proof
    assume "color (ns ! y) = gray"
    with y qu have "y \<in> set (u # q)" by (simp add: inv_queue_def)
    from head_least[OF so this] lt show False by simp
  qed
  with y have "color (ns ! y) = black" by (simp add: color_cases)
  with bl y have nb: "\<forall>v \<in> set (A ! y). color (ns ! v) \<noteq> white" by (simp add: inv_black_def)
  from hops_Suc.hyps(2) have xa: "y < length A" "x \<in> set (A ! y)" by (simp_all add: arc_def)
  with st have "x < length A" by (auto simp: inv_static_def wf_adj_iff)
  moreover from st have "length A = length ns" by (auto simp: inv_static_def)
  ultimately show ?case using nb xa by simp
qed

lemma sorted_le_last:
  "sorted xs \<Longrightarrow> x \<in> set xs \<Longrightarrow> x \<le> (last xs :: int)"
  by (induction xs) (auto split: if_splits)

lemma discover_inv:
  assumes inv: "bfs_inv A s ns (u # q)"
    and au: "a \<in> set (A ! u)" and aw: "color (ns ! a) = white"
  shows "bfs_inv A s (discover u a ns) (u # q @ [a])"
proof -
  let ?ns = "discover u a ns"
  from inv have st: "inv_static A ns" and src: "inv_src s ns" and qu: "inv_queue ns (u # q)"
    and di: "inv_dist A s ns" and wh: "inv_white ns" and pr: "inv_pred A s ns"
    and bl: "inv_black A ns" and so: "inv_sorted ns (u # q)"
    by (simp_all add: bfs_inv_def)
  from st have lenA: "length A = length ns" by (auto simp: inv_static_def)
  from qu have "u \<in> set (u # q) \<longleftrightarrow> u < length ns \<and> color (ns ! u) = gray"
    unfolding inv_queue_def by blast
  then have u: "u < length ns" "color (ns ! u) = gray" by simp_all
  with aw have ua: "u \<noteq> a" by auto
  from st u au lenA have a: "a < length ns" by (auto simp: inv_static_def wf_adj_iff)
  have col: "color (?ns ! v) = (if v = a then gray else color (ns ! v))" for v
    using a by (simp add: discover_self discover_other)
  have dis: "distance (?ns ! v) = (if v = a then distance (ns ! u) + 1 else distance (ns ! v))" for v
    using a by (simp add: discover_self discover_other)
  have prd: "predecessor (?ns ! v) = (if v = a then Some u else predecessor (ns ! v))" for v
    using a by (simp add: discover_self discover_other)
  have nw: "color (ns ! v) \<noteq> white \<Longrightarrow> v \<noteq> a" for v using aw by auto
  have 1: "inv_static A ?ns" using st by (simp add: inv_static_def discover_adj)
  have 2: "inv_src s ?ns" using src nw[of s] by (simp add: inv_src_def col dis prd)
  have 3: "inv_queue ?ns (u # q @ [a])"
  proof -
    from qu aw have "a \<notin> set (u # q)" by (auto simp: inv_queue_def)
    with qu have "distinct (u # q @ [a])" by (auto simp: inv_queue_def)
    moreover have "v \<in> set (u # q @ [a]) \<longleftrightarrow> v < length ?ns \<and> color (?ns ! v) = gray" for v
      using qu a by (cases "v = a") (auto simp: inv_queue_def col)
    ultimately show ?thesis unfolding inv_queue_def by blast
  qed
  from di u have du: "0 \<le> distance (ns ! u)" "hops A s (nat (distance (ns ! u))) u"
    by (simp_all add: inv_dist_def)
  have 4: "inv_dist A s ?ns"
    unfolding inv_dist_def
  proof (intro allI impI)
    fix v assume v: "v < length ?ns" and c: "color (?ns ! v) \<noteq> white"
    show "0 \<le> distance (?ns ! v) \<and> hops A s (nat (distance (?ns ! v))) v \<and>
        (\<forall>k. hops A s k v \<longrightarrow> distance (?ns ! v) \<le> int k)"
    proof (cases "v = a")
      case True
      have "arc A u a" using au u lenA by (simp add: arc_def)
      with du have "hops A s (Suc (nat (distance (ns ! u)))) a" by (auto intro: hops_Suc)
      moreover from du have "nat (distance (ns ! u) + 1) = Suc (nat (distance (ns ! u)))" by simp
      ultimately have h: "hops A s (nat (distance (ns ! u) + 1)) a" by simp
      have "distance (ns ! u) + 1 \<le> int k" if "hops A s k a" for k
      proof (rule ccontr)
        assume "\<not> distance (ns ! u) + 1 \<le> int k"
        then have "int k \<le> distance (ns ! u)" by simp
        from frontier[OF st src qu di bl so that this] aw show False by simp
      qed
      with h du True show ?thesis by (simp add: dis)
    next
      case False
      with v c di show ?thesis by (simp add: inv_dist_def col dis)
    qed
  qed
  have 5: "inv_white ?ns"
    unfolding inv_white_def
  proof (intro allI impI)
    fix v assume "v < length ?ns" "color (?ns ! v) = white"
    then have "v \<noteq> a" "v < length ns" "color (ns ! v) = white" by (auto simp: col split: if_splits)
    with wh show "distance (?ns ! v) = INT_MAX \<and> predecessor (?ns ! v) = None"
      by (simp add: inv_white_def dis prd)
  qed
  have 6: "inv_pred A s ?ns"
    unfolding inv_pred_def
  proof (intro allI impI)
    fix v assume v: "v < length ?ns" and c: "color (?ns ! v) \<noteq> white" and vs: "v \<noteq> s"
    show "\<exists>p < length ?ns. predecessor (?ns ! v) = Some p \<and> color (?ns ! p) \<noteq> white \<and> arc A p v \<and>
        distance (?ns ! v) = distance (?ns ! p) + 1"
    proof (cases "v = a")
      case True
      have "arc A u a" using au u lenA by (simp add: arc_def)
      with u ua True show ?thesis by (intro exI[of _ u]) (simp add: col dis prd)
    next
      case False
      with v c vs pr obtain p where p: "p < length ns" "predecessor (ns ! v) = Some p"
        "color (ns ! p) \<noteq> white" "arc A p v" "distance (ns ! v) = distance (ns ! p) + 1"
        by (auto simp: inv_pred_def col)
      from p(3) have "p \<noteq> a" by (rule nw)
      with p False show ?thesis by (intro exI[of _ p]) (simp add: col dis prd)
    qed
  qed
  have 7: "inv_black A ?ns"
    unfolding inv_black_def
  proof (intro allI impI ballI)
    fix w v assume "w < length ?ns" "color (?ns ! w) = black" "v \<in> set (A ! w)"
    then have "w < length ns" "color (ns ! w) = black" "v \<in> set (A ! w)"
      by (auto simp: col split: if_splits)
    with bl have "color (ns ! v) \<noteq> white" by (simp add: inv_black_def)
    then show "color (?ns ! v) \<noteq> white" by (simp add: col)
  qed
  have 8: "inv_sorted ?ns (u # q @ [a])"
  proof -
    from qu aw have an: "a \<notin> set (u # q)" by (auto simp: inv_queue_def)
    then have same: "map (\<lambda>v. distance (?ns ! v)) (u # q) = map (\<lambda>v. distance (ns ! v)) (u # q)"
      by (intro map_cong) (auto simp: dis)
    from so have s1: "sorted (map (\<lambda>v. distance (ns ! v)) (u # q))"
      and s2: "distance (ns ! last (u # q)) \<le> distance (ns ! u) + 1"
      by (simp_all add: inv_sorted_def)
    have le: "x \<le> distance (ns ! u) + 1" if "x \<in> set (map (\<lambda>v. distance (ns ! v)) (u # q))" for x
    proof -
      from sorted_le_last[OF s1 that]
      have "x \<le> last (map (\<lambda>v. distance (ns ! v)) (u # q))" .
      also have "\<dots> = distance (ns ! last (u # q))" by (simp add: last_map)
      finally show ?thesis using s2 by simp
    qed
    have eq: "map (\<lambda>v. distance (?ns ! v)) (u # q @ [a]) =
        map (\<lambda>v. distance (ns ! v)) (u # q) @ [distance (ns ! u) + 1]"
      using same by (simp add: dis)
    have srt: "sorted (map (\<lambda>v. distance (ns ! v)) (u # q) @ [distance (ns ! u) + 1])"
      using s1 le by (simp only: sorted_append) auto
    have "sorted (map (\<lambda>v. distance (?ns ! v)) (u # q @ [a]))"
      unfolding eq by (rule srt)
    moreover have "distance (?ns ! last (u # q @ [a])) \<le> distance (?ns ! hd (u # q @ [a])) + 1"
      using ua by (simp add: dis)
    ultimately show ?thesis unfolding inv_sorted_def by blast
  qed
  from 1 2 3 4 5 6 7 8 show ?thesis unfolding bfs_inv_def by blast
qed

lemma blacken_inv:
  assumes inv: "bfs_inv A s ns (u # q)"
    and nb: "\<forall>v \<in> set (A ! u). color (ns ! v) \<noteq> white"
  shows "bfs_inv A s (blacken u ns) q"
proof -
  let ?ns = "blacken u ns"
  from inv have st: "inv_static A ns" and src: "inv_src s ns" and qu: "inv_queue ns (u # q)"
    and di: "inv_dist A s ns" and wh: "inv_white ns" and pr: "inv_pred A s ns"
    and bl: "inv_black A ns" and so: "inv_sorted ns (u # q)"
    by (simp_all add: bfs_inv_def)
  from qu have "u \<in> set (u # q) \<longleftrightarrow> u < length ns \<and> color (ns ! u) = gray"
    unfolding inv_queue_def by blast
  then have u: "u < length ns" "color (ns ! u) = gray" by simp_all
  have len: "length ?ns = length ns" by (simp add: blacken_def)
  have col: "color (?ns ! v) = (if v = u then black else color (ns ! v))" for v
    using u by (simp add: blacken_def nth_list_update)
  have dis: "distance (?ns ! v) = distance (ns ! v)" for v
    using u by (cases "v = u") (simp_all add: blacken_def)
  have prd: "predecessor (?ns ! v) = predecessor (ns ! v)" for v
    using u by (cases "v = u") (simp_all add: blacken_def)
  have nw: "color (?ns ! v) \<noteq> white \<longleftrightarrow> color (ns ! v) \<noteq> white" for v
    using u by (simp add: col)
  have "map adj_list ?ns = map adj_list ns"
    unfolding blacken_def by (rule map_update_field) simp
  with st have 1: "inv_static A ?ns" by (simp add: inv_static_def)
  have 2: "inv_src s ?ns" using src by (simp add: inv_src_def nw dis prd len)
  have 3: "inv_queue ?ns q"
  proof -
    from qu have "distinct q" "u \<notin> set q" by (simp_all add: inv_queue_def)
    moreover have "v \<in> set q \<longleftrightarrow> v < length ?ns \<and> color (?ns ! v) = gray" for v
      using qu \<open>u \<notin> set q\<close> by (cases "v = u") (auto simp: inv_queue_def col len)
    ultimately show ?thesis unfolding inv_queue_def by blast
  qed
  have 4: "inv_dist A s ?ns" using di by (simp add: inv_dist_def nw dis len)
  have 5: "inv_white ?ns"
    unfolding inv_white_def
  proof (intro allI impI)
    fix v assume "v < length ?ns" "color (?ns ! v) = white"
    then have "v < length ns" "color (ns ! v) = white" using nw[of v] by (simp_all add: len)
    with wh show "distance (?ns ! v) = INT_MAX \<and> predecessor (?ns ! v) = None"
      by (simp add: inv_white_def dis prd)
  qed
  have 6: "inv_pred A s ?ns" using pr by (simp add: inv_pred_def nw dis prd len)
  have 7: "inv_black A ?ns"
    unfolding inv_black_def
  proof (intro allI impI ballI)
    fix w v assume w: "w < length ?ns" "color (?ns ! w) = black" "v \<in> set (A ! w)"
    have "color (ns ! v) \<noteq> white"
    proof (cases "w = u")
      case True
      with w nb show ?thesis by simp
    next
      case False
      with w bl show ?thesis by (simp add: inv_black_def col len)
    qed
    then show "color (?ns ! v) \<noteq> white" by (simp add: nw)
  qed
  have 8: "inv_sorted ?ns q"
  proof (cases q)
    case Nil
    then show ?thesis by (simp add: inv_sorted_def)
  next
    case (Cons h t)
    from so have s1: "sorted (map (\<lambda>v. distance (ns ! v)) (u # q))"
      and s2: "distance (ns ! last (u # q)) \<le> distance (ns ! u) + 1"
      by (simp_all add: inv_sorted_def)
    from s1 Cons have "distance (ns ! u) \<le> distance (ns ! h)" by simp
    with s2 Cons have "distance (ns ! last q) \<le> distance (ns ! hd q) + 1" by simp
    with s1 show ?thesis by (simp add: inv_sorted_def dis)
  qed
  from 1 2 3 4 5 6 7 8 show ?thesis unfolding bfs_inv_def by blast
qed

lemma bfs_adj_Cons:
  "bfs_adj u (a # rest) (ns, q) =
     (if a < length ns then
        if color (ns ! a) = white then bfs_adj u rest (discover u a ns, q @ [a])
        else bfs_adj u rest (ns, q)
      else Inl BadPointer)"
  by (simp add: discover_def)

lemma bfs_adj_inv:
  assumes "bfs_inv A s ns (u # q)" "set rest \<subseteq> set (A ! u)" "\<forall>v \<in> D. color (ns ! v) \<noteq> white"
  shows "\<exists>ns' q'. bfs_adj u rest (ns, q) = Inr (ns', q') \<and> bfs_inv A s ns' (u # q') \<and>
           (\<forall>v \<in> D \<union> set rest. color (ns' ! v) \<noteq> white)"
  using assms
proof (induction rest arbitrary: ns q D)
  case Nil
  then show ?case by simp
next
  case (Cons a rest)
  from Cons.prems(1) have st: "inv_static A ns" and qu: "inv_queue ns (u # q)"
    by (simp_all add: bfs_inv_def)
  from qu have "u \<in> set (u # q) \<longleftrightarrow> u < length ns \<and> color (ns ! u) = gray"
    unfolding inv_queue_def by blast
  then have u: "u < length ns" by simp
  from Cons.prems(2) have au: "a \<in> set (A ! u)" and rest: "set rest \<subseteq> set (A ! u)" by simp_all
  from st u au have a: "a < length ns" by (auto simp: inv_static_def wf_adj_iff)
  show ?case
  proof (cases "color (ns ! a) = white")
    case True
    let ?ns = "discover u a ns"
    have inv': "bfs_inv A s ?ns (u # q @ [a])"
      using Cons.prems(1) au True by (rule discover_inv)
    have col: "color (?ns ! v) = (if v = a then gray else color (ns ! v))" for v
      using a by (simp add: discover_self discover_other)
    have "\<forall>v \<in> insert a D. color (?ns ! v) \<noteq> white"
      using Cons.prems(3) by (simp add: col)
    from Cons.IH[OF inv' rest this]
    obtain ns' q' where "bfs_adj u rest (?ns, q @ [a]) = Inr (ns', q')" "bfs_inv A s ns' (u # q')"
      "\<forall>v \<in> insert a D \<union> set rest. color (ns' ! v) \<noteq> white" by blast
    with True a show ?thesis by (auto simp: bfs_adj_Cons simp del: bfs_adj.simps)
  next
    case False
    with Cons.prems(3) have "\<forall>v \<in> insert a D. color (ns ! v) \<noteq> white" by simp
    from Cons.IH[OF Cons.prems(1) rest this]
    obtain ns' q' where "bfs_adj u rest (ns, q) = Inr (ns', q')" "bfs_inv A s ns' (u # q')"
      "\<forall>v \<in> insert a D \<union> set rest. color (ns' ! v) \<noteq> white" by blast
    with False a show ?thesis by (auto simp: bfs_adj_Cons simp del: bfs_adj.simps)
  qed
qed

lemma bfs_loop_inv:
  "bfs_inv A s ns q \<Longrightarrow> \<exists>ns'. bfs_loop ns q = Inr ns' \<and> bfs_inv A s ns' []"
proof (induction ns q rule: bfs_loop.induct)
  case (1 ns)
  then show ?case by (simp add: bfs_loop.simps)
next
  case (2 ns u q)
  from "2.prems" have st: "inv_static A ns" and qu: "inv_queue ns (u # q)"
    by (simp_all add: bfs_inv_def)
  from qu have "u \<in> set (u # q) \<longleftrightarrow> u < length ns \<and> color (ns ! u) = gray"
    unfolding inv_queue_def by blast
  then have u: "u < length ns" by simp
  with st have Au: "A ! u = adj_list (ns ! u)" by (auto simp: inv_static_def)
  have "set (adj_list (ns ! u)) \<subseteq> set (A ! u)" "\<forall>v \<in> {}. color (ns ! v) \<noteq> white"
    by (simp_all add: Au)
  from bfs_adj_inv[OF "2.prems" this]
  obtain ns' q' where adj: "bfs_adj u (adj_list (ns ! u)) (ns, q) = Inr (ns', q')"
    and inv': "bfs_inv A s ns' (u # q')"
    and nb: "\<forall>v \<in> set (A ! u). color (ns' ! v) \<noteq> white"
    by (auto simp: Au)
  from blacken_inv[OF inv' nb] have "bfs_inv A s (ns'[u := (ns' ! u)\<lparr>color := black\<rparr>]) q'"
    by (simp add: blacken_def)
  from "2.IH"[OF u adj refl this] u adj show ?case by (simp add: bfs_loop.simps)
qed

lemma bfs_init_inv:
  assumes wf: "wf_adj (map adj_list ns)" and s: "s < length ns"
  shows "bfs_inv (map adj_list ns) s
     ((map bfs_reset ns)[s := (map bfs_reset ns ! s)\<lparr>distance := 0, color := gray, predecessor := None\<rparr>])
     [s]"
proof -
  define A where "A = map adj_list ns"
  define ns1 where "ns1 =
    (map bfs_reset ns)[s := (map bfs_reset ns ! s)\<lparr>distance := 0, color := gray, predecessor := None\<rparr>]"
  have len: "length ns1 = length ns" by (simp add: ns1_def)
  have col: "color (ns1 ! v) = (if v = s then gray else white)" if "v < length ns" for v
    using that s by (simp add: ns1_def nth_list_update bfs_reset_def)
  have dis: "distance (ns1 ! v) = (if v = s then 0 else INT_MAX)" if "v < length ns" for v
    using that s by (simp add: ns1_def nth_list_update bfs_reset_def)
  have prd: "predecessor (ns1 ! v) = None" if "v < length ns" for v
    using that s by (simp add: ns1_def nth_list_update bfs_reset_def)
  have only: "v = s" if "v < length ns1" "color (ns1 ! v) \<noteq> white" for v
    using that col[of v] by (simp add: len split: if_splits)
  have "map adj_list ns1 = map adj_list (map bfs_reset ns)"
    unfolding ns1_def by (rule map_update_field) simp
  also have "\<dots> = A" by (simp add: bfs_reset_def A_def)
  finally have 1: "inv_static A ns1" using wf by (simp add: inv_static_def A_def)
  have 2: "inv_src s ns1" using s by (simp add: inv_src_def col dis prd len)
  have 3: "inv_queue ns1 [s]"
  proof -
    have "v \<in> set [s] \<longleftrightarrow> v < length ns1 \<and> color (ns1 ! v) = gray" for v
      using s col[of v] by (auto simp: len split: if_splits)
    then show ?thesis unfolding inv_queue_def by simp
  qed
  have 4: "inv_dist A s ns1"
    unfolding inv_dist_def
  proof (intro allI impI)
    fix v assume "v < length ns1" "color (ns1 ! v) \<noteq> white"
    then have "v = s" by (rule only)
    then show "0 \<le> distance (ns1 ! v) \<and> hops A s (nat (distance (ns1 ! v))) v \<and>
        (\<forall>k. hops A s k v \<longrightarrow> distance (ns1 ! v) \<le> int k)"
      using s by (simp add: dis hops_0)
  qed
  have 5: "inv_white ns1"
    unfolding inv_white_def
  proof (intro allI impI)
    fix v assume v: "v < length ns1" "color (ns1 ! v) = white"
    with col[of v] have "v \<noteq> s" by (auto simp: len)
    with v show "distance (ns1 ! v) = INT_MAX \<and> predecessor (ns1 ! v) = None"
      by (simp add: dis prd len)
  qed
  have 6: "inv_pred A s ns1"
    unfolding inv_pred_def using only by blast
  have 7: "inv_black A ns1"
    unfolding inv_black_def
  proof (intro allI impI)
    fix u assume u: "u < length ns1" "color (ns1 ! u) = black"
    then have "u = s" using only[of u] by simp
    with u col[of s] s have False by simp
    then show "\<forall>v \<in> set (A ! u). color (ns1 ! v) \<noteq> white" ..
  qed
  have 8: "inv_sorted ns1 [s]" by (simp add: inv_sorted_def)
  from 1 2 3 4 5 6 7 8 show ?thesis unfolding bfs_inv_def A_def ns1_def by blast
qed

lemma final_reach:
  assumes inv: "bfs_inv A s ns []"
  shows "hops A s k v \<Longrightarrow> v < length ns \<and> color (ns ! v) = black"
proof (induction rule: hops.induct)
  case hops_0
  from inv have "inv_src s ns" "inv_queue ns []" by (simp_all add: bfs_inv_def)
  then show ?case by (auto simp: inv_src_def inv_queue_def intro: color_cases)
next
  case (hops_Suc k u v)
  from inv have st: "inv_static A ns" and qu: "inv_queue ns []" and bl: "inv_black A ns"
    by (simp_all add: bfs_inv_def)
  from hops_Suc.hyps(2) have a: "u < length A" "v \<in> set (A ! u)" by (simp_all add: arc_def)
  with st have v: "v < length ns" by (auto simp: inv_static_def wf_adj_iff)
  from bl hops_Suc.IH a have "color (ns ! v) \<noteq> white" unfolding inv_black_def by blast
  moreover from qu v have "color (ns ! v) \<noteq> gray" by (simp add: inv_queue_def)
  ultimately show ?case using v by (simp add: color_cases)
qed

lemma final_follow:
  assumes inv: "bfs_inv A s ns q"
  shows "v < length ns \<Longrightarrow> color (ns ! v) \<noteq> white \<Longrightarrow> nat (distance (ns ! v)) = n \<Longrightarrow>
     follow_pred ns n v = Some s"
proof (induction n arbitrary: v)
  case 0
  from inv have src: "inv_src s ns" and di: "inv_dist A s ns" and pr: "inv_pred A s ns"
    by (simp_all add: bfs_inv_def)
  have "v = s"
  proof (rule ccontr)
    assume "v \<noteq> s"
    with pr 0 obtain p where p: "p < length ns" "color (ns ! p) \<noteq> white"
      "distance (ns ! v) = distance (ns ! p) + 1" by (auto simp: inv_pred_def)
    with di have "0 \<le> distance (ns ! p)" by (simp add: inv_dist_def)
    with p 0 show False by simp
  qed
  then show ?case by simp
next
  case (Suc n)
  from inv have src: "inv_src s ns" and di: "inv_dist A s ns" and pr: "inv_pred A s ns"
    by (simp_all add: bfs_inv_def)
  from Suc.prems src have "v \<noteq> s" by (auto simp: inv_src_def)
  with pr Suc.prems obtain p where p: "p < length ns" "predecessor (ns ! v) = Some p"
    "color (ns ! p) \<noteq> white" "distance (ns ! v) = distance (ns ! p) + 1"
    by (auto simp: inv_pred_def)
  with di have "0 \<le> distance (ns ! p)" by (simp add: inv_dist_def)
  with p Suc.prems have "nat (distance (ns ! p)) = n" by simp
  from Suc.IH[OF p(1) p(3) this] p Suc.prems show ?case by simp
qed

subsection \<open>What \<open>bfs\<close> leaves unchanged\<close>

lemma bfs_adj_frame:
  "bfs_adj u as (ns, q) = Inr (ns', q') \<Longrightarrow>
     map data ns' = map data ns \<and> map adj_list ns' = map adj_list ns"
proof (induction as arbitrary: ns q)
  case Nil
  then show ?case by simp
next
  case (Cons a as)
  show ?case
  proof (cases "a < length ns \<and> color (ns ! a) = white")
    case True
    with Cons.prems have "bfs_adj u as (discover u a ns, q @ [a]) = Inr (ns', q')"
      by (simp add: bfs_adj_Cons del: bfs_adj.simps)
    from Cons.IH[OF this] have "map data ns' = map data (discover u a ns)"
      "map adj_list ns' = map adj_list (discover u a ns)" by simp_all
    moreover have "map data (discover u a ns) = map data ns"
      unfolding discover_def by (rule map_update_field) simp
    ultimately show ?thesis by (simp add: discover_adj)
  next
    case False
    with Cons.prems have "bfs_adj u as (ns, q) = Inr (ns', q')"
      by (simp add: bfs_adj_Cons del: bfs_adj.simps split: if_splits)
    from Cons.IH[OF this] show ?thesis .
  qed
qed

lemma bfs_loop_frame:
  "bfs_loop ns q = Inr ns' \<Longrightarrow>
     map data ns' = map data ns \<and> map adj_list ns' = map adj_list ns"
proof (induction ns q rule: bfs_loop.induct)
  case (1 ns)
  then show ?case by (simp add: bfs_loop.simps)
next
  case (2 ns u q)
  show ?case
  proof (cases "u < length ns")
    case False
    with "2.prems" show ?thesis by (simp add: bfs_loop.simps)
  next
    case u: True
    show ?thesis
    proof (cases "bfs_adj u (adj_list (ns ! u)) (ns, q)")
      case (Inl e)
      with u "2.prems" show ?thesis by (simp add: bfs_loop.simps)
    next
      case (Inr x)
      obtain ns1 q1 where x: "x = (ns1, q1)" by (cases x)
      let ?ns2 = "ns1[u := (ns1 ! u)\<lparr>color := black\<rparr>]"
      from Inr x have adj: "bfs_adj u (adj_list (ns ! u)) (ns, q) = Inr (ns1, q1)" by simp
      with u "2.prems" have loop: "bfs_loop ?ns2 q1 = Inr ns'" by (simp add: bfs_loop.simps)
      from "2.IH"[OF u adj refl loop]
      have "map data ns' = map data ?ns2" "map adj_list ns' = map adj_list ?ns2" by simp_all
      moreover have "map data ?ns2 = map data ns1"
        by (rule map_update_field) simp
      moreover have "map adj_list ?ns2 = map adj_list ns1"
        by (rule map_update_field) simp
      ultimately show ?thesis using bfs_adj_frame[OF adj] by simp
    qed
  qed
qed

lemma bfs_reset_eq:
  "bfs_reset n = \<lparr>data = data n, color = white, distance = INT_MAX, predecessor = None,
     adj_list = adj_list n\<rparr>"
  by (cases n) (simp add: bfs_reset_def)

lemma map_bfs_reset_cong:
  assumes "map data ns' = map data ns" "map adj_list ns' = map adj_list ns"
  shows "map bfs_reset ns' = map bfs_reset ns"
proof (rule nth_equalityI)
  from assms(1) have len: "length ns' = length ns" by (rule map_eq_imp_length_eq)
  then show "length (map bfs_reset ns') = length (map bfs_reset ns)" by simp
  fix i assume "i < length (map bfs_reset ns')"
  then have i: "i < length ns'" "i < length ns" using len by simp_all
  have "data (ns' ! i) = map data ns' ! i" using i by simp
  also have "\<dots> = data (ns ! i)" using i by (simp only: assms nth_map)
  finally have d: "data (ns' ! i) = data (ns ! i)" .
  have "adj_list (ns' ! i) = map adj_list ns' ! i" using i by simp
  also have "\<dots> = adj_list (ns ! i)" using i by (simp only: assms nth_map)
  finally have a: "adj_list (ns' ! i) = adj_list (ns ! i)" .
  show "map bfs_reset ns' ! i = map bfs_reset ns ! i"
    using i d a by (simp add: bfs_reset_eq)
qed

lemma bfs_frame:
  assumes "bfs g src = Inr g'"
  shows "edges g' = edges g \<and> tot_nodes g' = tot_nodes g \<and> tot_edges g' = tot_edges g \<and>
     map data (nodes g') = map data (nodes g) \<and> map adj_list (nodes g') = map adj_list (nodes g)"
proof -
  let ?ns0 = "map bfs_reset (nodes g)"
  let ?ns1 = "?ns0[src := (?ns0 ! src)\<lparr>distance := 0, color := gray, predecessor := None\<rparr>]"
  from assms obtain ns where loop: "bfs_loop ?ns1 [src] = Inr ns" and g': "g' = g\<lparr>nodes := ns\<rparr>"
    by (auto simp: bfs_def Let_def split: if_splits sum.splits)
  have "map data ?ns1 = map data ?ns0" "map adj_list ?ns1 = map adj_list ?ns0"
    by (rule map_update_field, simp)+
  moreover have "map data ?ns0 = map data (nodes g)" "map adj_list ?ns0 = map adj_list (nodes g)"
    by (simp_all add: bfs_reset_def)
  ultimately show ?thesis using bfs_loop_frame[OF loop] g' by simp
qed

lemma bfs_idem:
  assumes "bfs g src = Inr g'"
  shows "bfs g' src = Inr g'"
proof -
  let ?ns0 = "map bfs_reset (nodes g)"
  let ?ns1 = "?ns0[src := (?ns0 ! src)\<lparr>distance := 0, color := gray, predecessor := None\<rparr>]"
  from assms obtain ns where loop: "bfs_loop ?ns1 [src] = Inr ns" and g': "g' = g\<lparr>nodes := ns\<rparr>"
    and src: "src < length (nodes g)"
    by (auto simp: bfs_def Let_def split: if_splits sum.splits)
  from bfs_frame[OF assms] have "map bfs_reset (nodes g') = ?ns0"
    by (intro map_bfs_reset_cong) simp_all
  moreover have "g'\<lparr>nodes := ns\<rparr> = g'" using g' by simp
  ultimately show ?thesis using loop src by (simp add: bfs_def Let_def)
qed

subsection \<open>The result of \<open>bfs\<close>\<close>

lemma bfs_correct:
  assumes wf: "wf_adj (adjacency g)" and src: "src < length (nodes g)"
  shows "\<exists>g'. bfs g src = Inr g' \<and> bfs_inv (adjacency g) src (nodes g') []"
proof -
  let ?ns0 = "map bfs_reset (nodes g)"
  let ?ns1 = "?ns0[src := (?ns0 ! src)\<lparr>distance := 0, color := gray, predecessor := None\<rparr>]"
  from bfs_init_inv[of "nodes g" src] wf src
  have "bfs_inv (adjacency g) src ?ns1 [src]" by (simp add: adjacency_def)
  from bfs_loop_inv[OF this] obtain ns where "bfs_loop ?ns1 [src] = Inr ns"
    "bfs_inv (adjacency g) src ns []" by blast
  with src show ?thesis by (simp add: bfs_def Let_def)
qed

lemma reachable_in_store:
  assumes "wf_adj A" "s < length A"
  shows "hops A s k v \<Longrightarrow> v < length A"
  by (induction rule: hops.induct) (use assms in \<open>auto simp: wf_adj_iff arc_def\<close>)

text \<open>
  C1: for every graph whose adjacency entries refer to nodes of the store, and every
  source node \<open>src\<close> of the store, \<open>bfs\<close> returns; afterwards the distance of every
  node reachable from \<open>src\<close> is the minimum number of steps on any path from \<open>src\<close> to
  it, the predecessor pointers lead from it back to \<open>src\<close> in exactly that many steps,
  each along an adjacency entry from a reachable node one step closer (\<open>src\<close> itself
  has no predecessor); every node not reachable from \<open>src\<close> is white, has distance
  \<open>INT_MAX\<close> and no predecessor. Paths follow adjacency entries, whatever the edge
  weights; in a graph built by \<open>insert_edge\<close> a step along an adjacency entry is a
  step along a stored edge.
\<close>

theorem bfs_shortest_hop_distances:
  assumes wf: "wf_adj (adjacency g)" and src: "src < length (nodes g)"
  shows "\<exists>g'. bfs g src = Inr g' \<and> length (nodes g') = length (nodes g) \<and>
     adjacency g' = adjacency g \<and>
     predecessor (nodes g' ! src) = None \<and>
     (\<forall>v. reachable (adjacency g) src v \<longrightarrow> v < length (nodes g)) \<and>
     (built g \<longrightarrow> (\<forall>u v. arc (adjacency g) u v \<longleftrightarrow> (\<exists>e \<in> set (edges g). joins e u v))) \<and>
     (\<forall>v < length (nodes g).
        (reachable (adjacency g) src v \<longrightarrow>
           color (nodes g' ! v) = black \<and>
           hop_distance (adjacency g) src v (distance (nodes g' ! v)) \<and>
           follow_pred (nodes g') (nat (distance (nodes g' ! v))) v = Some src \<and>
           (v \<noteq> src \<longrightarrow>
              (\<exists>p < length (nodes g). predecessor (nodes g' ! v) = Some p \<and>
                 arc (adjacency g) p v \<and> reachable (adjacency g) src p \<and>
                 distance (nodes g' ! v) = distance (nodes g' ! p) + 1))) \<and>
        (\<not> reachable (adjacency g) src v \<longrightarrow>
           color (nodes g' ! v) = white \<and> distance (nodes g' ! v) = INT_MAX \<and>
           predecessor (nodes g' ! v) = None))"
proof -
  let ?A = "adjacency g"
  from bfs_correct[OF wf src] obtain g' where run: "bfs g src = Inr g'"
    and inv: "bfs_inv ?A src (nodes g') []" by blast
  let ?ns = "nodes g'"
  from inv have st: "inv_static ?A ?ns" and sr: "inv_src src ?ns" and qu: "inv_queue ?ns []"
    and di: "inv_dist ?A src ?ns" and wh: "inv_white ?ns" and pr: "inv_pred ?A src ?ns"
    by (simp_all add: bfs_inv_def)
  from st have adj: "adjacency g' = ?A" by (simp add: inv_static_def adjacency_def)
  then have len: "length ?ns = length (nodes g)"
    by (metis adjacency_def length_map)
  have lenA: "length ?A = length (nodes g)" by (simp add: adjacency_def)
  have in_store: "v < length (nodes g)" if "reachable ?A src v" for v
    using that reachable_in_store[OF wf] src lenA by (auto simp: reachable_def)
  have nonwhite_reach: "reachable ?A src v" if "v < length ?ns" "color (?ns ! v) \<noteq> white" for v
    using di that unfolding inv_dist_def reachable_def by blast
  have reach_black: "color (?ns ! v) = black" if "reachable ?A src v" for v
    using that final_reach[OF inv] by (auto simp: reachable_def)
  have main: "(reachable ?A src v \<longrightarrow>
           color (?ns ! v) = black \<and>
           hop_distance ?A src v (distance (?ns ! v)) \<and>
           follow_pred ?ns (nat (distance (?ns ! v))) v = Some src \<and>
           (v \<noteq> src \<longrightarrow>
              (\<exists>p < length (nodes g). predecessor (?ns ! v) = Some p \<and>
                 arc ?A p v \<and> reachable ?A src p \<and>
                 distance (?ns ! v) = distance (?ns ! p) + 1))) \<and>
        (\<not> reachable ?A src v \<longrightarrow>
           color (?ns ! v) = white \<and> distance (?ns ! v) = INT_MAX \<and>
           predecessor (?ns ! v) = None)" if v: "v < length (nodes g)" for v
  proof (intro conjI impI)
    assume r: "reachable ?A src v"
    then show b: "color (?ns ! v) = black" by (rule reach_black)
    then have nw: "color (?ns ! v) \<noteq> white" by simp
    with di v len show "hop_distance ?A src v (distance (?ns ! v))"
      by (simp add: inv_dist_def hop_distance_def)
    from final_follow[OF inv _ nw refl] v len
    show "follow_pred ?ns (nat (distance (?ns ! v))) v = Some src" by simp
    assume "v \<noteq> src"
    with pr v len nw obtain p where p: "p < length ?ns" "predecessor (?ns ! v) = Some p"
      "color (?ns ! p) \<noteq> white" "arc ?A p v" "distance (?ns ! v) = distance (?ns ! p) + 1"
      unfolding inv_pred_def by force
    from nonwhite_reach[OF p(1) p(3)] p len
    show "\<exists>p < length (nodes g). predecessor (?ns ! v) = Some p \<and>
                 arc ?A p v \<and> reachable ?A src p \<and>
                 distance (?ns ! v) = distance (?ns ! p) + 1" by auto
  next
    assume "\<not> reachable ?A src v"
    with nonwhite_reach[of v] v len have w: "color (?ns ! v) = white" by auto
    with wh v len show "color (?ns ! v) = white" "distance (?ns ! v) = INT_MAX"
      "predecessor (?ns ! v) = None" by (simp_all add: inv_white_def)
  qed
  from sr have "predecessor (?ns ! src) = None" by (simp add: inv_src_def)
  moreover have "built g \<longrightarrow> (\<forall>u v. arc ?A u v \<longleftrightarrow> (\<exists>e \<in> set (edges g). joins e u v))"
    using built_arc_iff_edge by blast
  ultimately show ?thesis using run len adj in_store main by blast
qed

theorem bfs_shortest_hop_distances_witness:
  "wf_adj (adjacency (fst (load 6 5 [(0, 1, 1), (1, 2, 2), (0, 2, 7), (2, 3, 1), (4, 5, 3)]))) \<and>
   0 < length (nodes (fst (load 6 5 [(0, 1, 1), (1, 2, 2), (0, 2, 7), (2, 3, 1), (4, 5, 3)]))) \<and>
   map distance
     (nodes (projr (bfs (fst (load 6 5 [(0, 1, 1), (1, 2, 2), (0, 2, 7), (2, 3, 1), (4, 5, 3)])) 0)))
     = [0, 1, 1, 2, INT_MAX, INT_MAX] \<and>
   reachable (adjacency (fst (load 6 5 [(0, 1, 1), (1, 2, 2), (0, 2, 7), (2, 3, 1), (4, 5, 3)]))) 0 3 \<and>
   hop_distance (adjacency (fst (load 6 5 [(0, 1, 1), (1, 2, 2), (0, 2, 7), (2, 3, 1), (4, 5, 3)]))) 0 3 2 \<and>
   \<not> reachable (adjacency (fst (load 6 5 [(0, 1, 1), (1, 2, 2), (0, 2, 7), (2, 3, 1), (4, 5, 3)]))) 0 4"
proof -
  let ?g = "fst (load 6 5 [(0, 1, 1), (1, 2, 2), (0, 2, 7), (2, 3, 1), (4, 5, 3)])"
  let ?A = "adjacency ?g"
  have A: "?A = [[1, 2], [0, 2], [1, 0, 3], [2], [5], [4]]" by code_simp
  have wf: "wf_adj ?A" unfolding A by code_simp
  have len: "length (nodes ?g) = 6" by code_simp
  then have src: "0 < length (nodes ?g)" by simp
  have dists: "map distance (nodes (projr (bfs ?g 0))) = [0, 1, 1, 2, INT_MAX, INT_MAX]"
    by code_simp
  have cols: "map color (nodes (projr (bfs ?g 0))) = [black, black, black, black, white, white]"
    by code_simp
  from bfs_shortest_hop_distances[OF wf src] obtain g' where run: "bfs ?g 0 = Inr g'"
    and post: "\<forall>v < length (nodes ?g).
        (reachable ?A 0 v \<longrightarrow>
           color (nodes g' ! v) = black \<and>
           hop_distance ?A 0 v (distance (nodes g' ! v)) \<and>
           follow_pred (nodes g') (nat (distance (nodes g' ! v))) v = Some 0 \<and>
           (v \<noteq> 0 \<longrightarrow>
              (\<exists>p < length (nodes ?g). predecessor (nodes g' ! v) = Some p \<and>
                 arc ?A p v \<and> reachable ?A 0 p \<and>
                 distance (nodes g' ! v) = distance (nodes g' ! p) + 1))) \<and>
        (\<not> reachable ?A 0 v \<longrightarrow>
           color (nodes g' ! v) = white \<and> distance (nodes g' ! v) = INT_MAX \<and>
           predecessor (nodes g' ! v) = None)"
    by blast
  from run have g': "projr (bfs ?g 0) = g'" by simp
  from dists have "length (map distance (nodes g')) = 6" unfolding g' by simp
  then have l: "length (nodes g') = 6" by simp
  from dists have "map distance (nodes g') ! 3 = 2" unfolding g' by simp
  with l have d3: "distance (nodes g' ! 3) = 2" by simp
  from cols have "map color (nodes g') ! 4 = white" unfolding g' by simp
  with l have c4: "color (nodes g' ! 4) = white" by simp
  have "hops ?A 0 0 0" by (rule hops_0)
  moreover have "arc ?A 0 2" "arc ?A 2 3" unfolding A by (simp_all add: arc_def)
  ultimately have "hops ?A 0 (Suc (Suc 0)) 3" by (blast intro: hops_Suc)
  then have r3: "reachable ?A 0 3" unfolding reachable_def by blast
  with post[rule_format, of 3] len d3 have h3: "hop_distance ?A 0 3 2" by simp
  have r4: "\<not> reachable ?A 0 4"
  proof
    assume "reachable ?A 0 4"
    with post[rule_format, of 4] len have "color (nodes g' ! 4) = black" by simp
    with c4 show False by simp
  qed
  from wf src dists r3 h3 r4 show ?thesis by blast
qed

section \<open>Prim's algorithm: what it leaves unchanged\<close>

lemma prim_adj_Cons:
  "prim_adj es in_mst u (adj # rest) (ns, pq, lg) =
     (if adj \<in> in_mst then prim_adj es in_mst u rest (ns, pq, lg @ [(u, adj)])
      else if adj < length ns then
        case find_edge es 0 u adj of
          None \<Rightarrow> Inl NullEdge
        | Some e \<Rightarrow>
            if distance (ns ! adj) > weight (es ! e) then
              prim_adj es in_mst u rest
                (relax u adj (weight (es ! e)) ns,
                 pq_push (relax u adj (weight (es ! e)) ns) pq adj, lg @ [(u, adj)])
            else prim_adj es in_mst u rest (ns, pq, lg @ [(u, adj)])
      else Inl BadPointer)"
  by (simp add: Let_def split: option.splits)

lemmas prim_adj_Nil = prim_adj.simps(1)

declare prim_adj.simps(2) [simp del]

lemma relax_length [simp]: "length (relax u adj w ns) = length ns"
  by (simp add: relax_def)

lemma relax_nth:
  "v < length ns \<Longrightarrow> relax u adj w ns ! v =
     (if v = adj then (ns ! adj)\<lparr>predecessor := Some u, distance := w\<rparr> else ns ! v)"
  by (simp add: relax_def)

lemma relax_fields:
  "map data (relax u adj w ns) = map data ns"
  "map color (relax u adj w ns) = map color ns"
  "map adj_list (relax u adj w ns) = map adj_list ns"
  unfolding relax_def by (rule map_update_field, simp)+

lemma prim_kept_refl: "prim_kept ns ns"
  by (simp add: prim_kept_def)

lemma prim_kept_length: "prim_kept ns ns' \<Longrightarrow> length ns' = length ns"
  unfolding prim_kept_def by (metis length_map)

lemma prim_kept_trans:
  assumes "prim_kept ns ns'" "prim_kept ns' ns''"
  shows "prim_kept ns ns''"
proof -
  from assms(1) have len: "length ns' = length ns" by (rule prim_kept_length)
  have "distance (ns'' ! v) \<le> distance (ns ! v)" if "v < length ns" for v
  proof -
    from that len assms have "distance (ns'' ! v) \<le> distance (ns' ! v)"
      "distance (ns' ! v) \<le> distance (ns ! v)" by (simp_all add: prim_kept_def)
    then show ?thesis by simp
  qed
  with assms show ?thesis by (simp add: prim_kept_def)
qed

lemma prim_kept_relax:
  assumes "adj < length ns" "w < distance (ns ! adj)"
  shows "prim_kept ns (relax u adj w ns)"
  using assms by (simp add: prim_kept_def relax_fields relax_nth)

lemma prim_adj_kept:
  "prim_adj es in_mst u as (ns, pq, lg) = Inr (ns', pq', lg') \<Longrightarrow>
     prim_kept ns ns' \<and> lg' = lg @ map (Pair u) as"
proof (induction as arbitrary: ns pq lg)
  case Nil
  then show ?case by (simp add: prim_kept_refl)
next
  case (Cons adj rest)
  let ?lg = "lg @ [(u, adj)]"
  show ?case
  proof (cases "adj \<in> in_mst")
    case True
    with Cons.prems have "prim_adj es in_mst u rest (ns, pq, ?lg) = Inr (ns', pq', lg')"
      by (simp add: prim_adj_Cons)
    from Cons.IH[OF this] show ?thesis by simp
  next
    case False
    with Cons.prems have a: "adj < length ns" by (simp add: prim_adj_Cons split: if_splits)
    with False Cons.prems obtain e where e: "find_edge es 0 u adj = Some e"
      by (cases "find_edge es 0 u adj") (simp_all add: prim_adj_Cons)
    show ?thesis
    proof (cases "distance (ns ! adj) > weight (es ! e)")
      case True
      let ?ns = "relax u adj (weight (es ! e)) ns"
      from True False a e Cons.prems
      have "prim_adj es in_mst u rest (?ns, pq_push ?ns pq adj, ?lg) = Inr (ns', pq', lg')"
        by (simp add: prim_adj_Cons)
      from Cons.IH[OF this] have "prim_kept ?ns ns'" "lg' = ?lg @ map (Pair u) rest" by simp_all
      moreover from a True have "prim_kept ns ?ns" by (rule prim_kept_relax)
      ultimately show ?thesis by (auto intro: prim_kept_trans)
    next
      case nt: False
      with False a e Cons.prems
      have "prim_adj es in_mst u rest (ns, pq, ?lg) = Inr (ns', pq', lg')"
        by (simp add: prim_adj_Cons)
      from Cons.IH[OF this] show ?thesis by simp
    qed
  qed
qed

lemma prim_iter_kept:
  assumes "prim_iter es (ns, pq, in_mst, lg) = Inr (ns', pq', in_mst', lg')"
  shows "prim_kept ns ns' \<and> in_mst' = insert (hd pq) in_mst \<and> hd pq < length ns \<and>
     lg' = lg @ map (Pair (hd pq)) (adj_list (ns ! hd pq))"
proof -
  from assms have n: "hd pq < length ns" and m: "in_mst' = insert (hd pq) in_mst"
    and "prim_adj es (insert (hd pq) in_mst) (hd pq) (adj_list (ns ! hd pq))
      (ns, pq_pop ns pq, lg) = Inr (ns', pq', lg')"
    by (auto simp: prim_iter_def Let_def split: if_splits sum.splits)
  from prim_adj_kept[OF this(3)] n m show ?thesis by simp
qed

lemma prim_loop_kept:
  "prim_loop es (ns, pq, in_mst, lg) = Inr (ns', lg') \<Longrightarrow> prim_kept ns ns'"
proof (induction es "(ns, pq, in_mst, lg)" arbitrary: ns pq in_mst lg rule: prim_loop.induct)
  case (1 es ns pq in_mst lg)
  show ?case
  proof (cases "pq = []")
    case True
    with "1.prems" show ?thesis by (simp add: prim_loop.simps prim_kept_refl)
  next
    case False
    with "1.prems" obtain st' where it: "prim_iter es (ns, pq, in_mst, lg) = Inr st'"
      and lp: "prim_loop es st' = Inr (ns', lg')"
      by (cases "prim_iter es (ns, pq, in_mst, lg)") (simp_all add: prim_loop.simps)
    obtain ns1 pq1 m1 lg1 where st': "st' = (ns1, pq1, m1, lg1)" by (cases st')
    from "1.hyps"[OF False it[unfolded st'] lp[unfolded st']] have "prim_kept ns1 ns'" .
    moreover from it st' have "prim_kept ns ns1" by (simp add: prim_iter_kept)
    ultimately show ?thesis by (auto intro: prim_kept_trans)
  qed
qed

lemma prim_reset_eq:
  "prim_reset n = \<lparr>data = data n, color = color n, distance = INT_MAX, predecessor = None,
     adj_list = adj_list n\<rparr>"
  by (cases n) (simp add: prim_reset_def)

lemma map_prim_reset_cong:
  assumes "map data ns' = map data ns" "map color ns' = map color ns"
    "map adj_list ns' = map adj_list ns"
  shows "map prim_reset ns' = map prim_reset ns"
proof (rule nth_equalityI)
  from assms(1) have len: "length ns' = length ns" by (rule map_eq_imp_length_eq)
  then show "length (map prim_reset ns') = length (map prim_reset ns)" by simp
  fix i assume "i < length (map prim_reset ns')"
  then have i: "i < length ns'" "i < length ns" using len by simp_all
  have "data (ns' ! i) = map data ns' ! i" using i by simp
  also have "\<dots> = data (ns ! i)" using i by (simp only: assms nth_map)
  finally have d: "data (ns' ! i) = data (ns ! i)" .
  have "color (ns' ! i) = map color ns' ! i" using i by simp
  also have "\<dots> = color (ns ! i)" using i by (simp only: assms nth_map)
  finally have c: "color (ns' ! i) = color (ns ! i)" .
  have "adj_list (ns' ! i) = map adj_list ns' ! i" using i by simp
  also have "\<dots> = adj_list (ns ! i)" using i by (simp only: assms nth_map)
  finally have a: "adj_list (ns' ! i) = adj_list (ns ! i)" .
  show "map prim_reset ns' ! i = map prim_reset ns ! i"
    using i d c a by (simp add: prim_reset_eq)
qed

lemma prim_start_fields:
  "map data (prim_start ns src) = map data ns"
  "map color (prim_start ns src) = map color ns"
  "map adj_list (prim_start ns src) = map adj_list ns"
proof -
  have "map data (prim_start ns src) = map data (map prim_reset ns)"
    unfolding prim_start_def by (rule map_update_field) simp
  then show "map data (prim_start ns src) = map data ns" by (simp add: prim_reset_def)
  have "map color (prim_start ns src) = map color (map prim_reset ns)"
    unfolding prim_start_def by (rule map_update_field) simp
  then show "map color (prim_start ns src) = map color ns" by (simp add: prim_reset_def)
  have "map adj_list (prim_start ns src) = map adj_list (map prim_reset ns)"
    unfolding prim_start_def by (rule map_update_field) simp
  then show "map adj_list (prim_start ns src) = map adj_list ns" by (simp add: prim_reset_def)
qed

lemma prim_run_unfold:
  "prim_run g src =
     (if src < length (nodes g) then
        case prim_loop (edges g)
            (prim_start (nodes g) src, pq_push (prim_start (nodes g) src) [] src, {}, []) of
          Inl e \<Rightarrow> Inl e
        | Inr (ns, lg) \<Rightarrow> Inr (g\<lparr>nodes := ns\<rparr>, lg)
      else Inl BadPointer)"
  by (simp add: prim_run_def prim_start_def Let_def)

lemma prim_run_frame:
  assumes "prim_run g src = Inr (g', lg)"
  shows "edges g' = edges g \<and> tot_nodes g' = tot_nodes g \<and> tot_edges g' = tot_edges g \<and>
     map data (nodes g') = map data (nodes g) \<and> map color (nodes g') = map color (nodes g) \<and>
     map adj_list (nodes g') = map adj_list (nodes g)"
proof -
  let ?ns1 = "prim_start (nodes g) src"
  from assms obtain ns where loop: "prim_loop (edges g) (?ns1, pq_push ?ns1 [] src, {}, []) = Inr (ns, lg)"
    and g': "g' = g\<lparr>nodes := ns\<rparr>"
    by (auto simp: prim_run_unfold split: if_splits sum.splits)
  from prim_loop_kept[OF loop] have "prim_kept ?ns1 ns" .
  then show ?thesis using g' by (simp add: prim_kept_def prim_start_fields)
qed

lemma prim_run_idem:
  assumes "prim_run g src = Inr (g', lg)"
  shows "prim_run g' src = Inr (g', lg)"
proof -
  let ?ns1 = "prim_start (nodes g) src"
  from assms obtain ns where loop: "prim_loop (edges g) (?ns1, pq_push ?ns1 [] src, {}, []) = Inr (ns, lg)"
    and g': "g' = g\<lparr>nodes := ns\<rparr>" and src: "src < length (nodes g)"
    by (auto simp: prim_run_unfold split: if_splits sum.splits)
  from prim_run_frame[OF assms] have fr: "edges g' = edges g"
    "map data (nodes g') = map data (nodes g)" "map color (nodes g') = map color (nodes g)"
    "map adj_list (nodes g') = map adj_list (nodes g)" by simp_all
  then have "map prim_reset (nodes g') = map prim_reset (nodes g)"
    by (intro map_prim_reset_cong)
  then have "prim_start (nodes g') src = ?ns1" by (simp add: prim_start_def)
  moreover have "g'\<lparr>nodes := ns\<rparr> = g'" using g' by simp
  moreover from fr(2) have "length (nodes g') = length (nodes g)" by (rule map_eq_imp_length_eq)
  ultimately show ?thesis using loop src fr(1) by (simp add: prim_run_unfold)
qed

section \<open>Prim's algorithm: every lookup succeeds\<close>

lemma push_heap_loop_set:
  "holeIndex < length c \<Longrightarrow> set (push_heap_loop ns c holeIndex topIndex v) \<subseteq> insert v (set c)"
proof (induction ns c holeIndex topIndex v rule: push_heap_loop.induct)
  case (1 ns c holeIndex topIndex v)
  let ?parent = "(holeIndex - 1) div 2"
  show ?case
  proof (cases "holeIndex > topIndex \<and> compare ns (c ! ?parent) v")
    case True
    then have p: "?parent < length c" using "1.prems" by auto
    from "1.IH"[OF refl True] p
    have "set (push_heap_loop ns (c[holeIndex := c ! ?parent]) ?parent topIndex v)
        \<subseteq> insert v (set (c[holeIndex := c ! ?parent]))" by simp
    also have "\<dots> \<subseteq> insert v (set c)"
      using p set_update_subset_insert[of c holeIndex "c ! ?parent"] by auto
    finally show ?thesis using True by (subst push_heap_loop.simps) (simp add: Let_def)
  next
    case False
    then show ?thesis
      using set_update_subset_insert[of c holeIndex v]
      by (subst push_heap_loop.simps) (auto simp: Let_def)
  qed
qed

lemma adjust_heap_loop_set:
  "holeIndex < length c \<Longrightarrow> len \<le> length c \<Longrightarrow>
     set (fst (adjust_heap_loop ns c holeIndex secondChild len)) \<subseteq> set c \<and>
     fst (snd (adjust_heap_loop ns c holeIndex secondChild len)) < length c"
proof (induction ns c holeIndex secondChild len rule: adjust_heap_loop.induct)
  case (1 ns c holeIndex secondChild len)
  show ?case
  proof (cases "secondChild < (len - 1) div 2")
    case True
    define right where "right = 2 * (secondChild + 1)"
    define pick where "pick = (if compare ns (c ! right) (c ! (right - 1)) then right - 1 else right)"
    from True have "right < len" unfolding right_def by arith
    then have pk: "pick < length c" using "1.prems"(2) by (auto simp: pick_def)
    have step: "adjust_heap_loop ns c holeIndex secondChild len =
        adjust_heap_loop ns (c[holeIndex := c ! pick]) pick pick len"
      using True by (subst adjust_heap_loop.simps) (simp add: Let_def pick_def right_def)
    from "1.IH"[OF True right_def pick_def] pk "1.prems"(2)
    have "set (fst (adjust_heap_loop ns (c[holeIndex := c ! pick]) pick pick len))
        \<subseteq> set (c[holeIndex := c ! pick])"
      "fst (snd (adjust_heap_loop ns (c[holeIndex := c ! pick]) pick pick len)) < length c"
      by simp_all
    moreover have "set (c[holeIndex := c ! pick]) \<subseteq> set c"
      using pk set_update_subset_insert[of c holeIndex "c ! pick"] by auto
    ultimately show ?thesis unfolding step by blast
  next
    case False
    then have "adjust_heap_loop ns c holeIndex secondChild len = (c, holeIndex, secondChild)"
      by (subst adjust_heap_loop.simps) simp
    with "1.prems" show ?thesis by simp
  qed
qed

lemma adjust_heap_set:
  assumes "holeIndex < length c" "len \<le> length c"
  shows "set (adjust_heap ns c holeIndex len v) \<subseteq> insert v (set c)"
proof -
  obtain c1 h1 s1 where l: "adjust_heap_loop ns c holeIndex holeIndex len = (c1, h1, s1)"
    by (cases "adjust_heap_loop ns c holeIndex holeIndex len")
  from adjust_heap_loop_set[OF assms, of ns holeIndex] l
  have c1: "set c1 \<subseteq> set c" and h1: "h1 < length c" by simp_all
  from adjust_heap_loop_length[of ns c holeIndex holeIndex len] l
  have len1: "length c1 = length c" by simp
  show ?thesis
  proof (cases "even len \<and> 2 \<le> len \<and> s1 = (len - 2) div 2")
    case True
    then have r: "2 * (s1 + 1) - 1 < length c1" using assms(2) len1 by auto
    have "set (push_heap_loop ns (c1[h1 := c1 ! (2 * (s1 + 1) - 1)]) (2 * (s1 + 1) - 1) holeIndex v)
        \<subseteq> insert v (set (c1[h1 := c1 ! (2 * (s1 + 1) - 1)]))"
      using r by (intro push_heap_loop_set) simp
    also have "\<dots> \<subseteq> insert v (set c1)"
      using r set_update_subset_insert[of c1 h1 "c1 ! (2 * (s1 + 1) - 1)"] by auto
    finally show ?thesis using True l c1 by (auto simp: adjust_heap_def Let_def)
  next
    case False
    have "set (push_heap_loop ns c1 h1 holeIndex v) \<subseteq> insert v (set c1)"
      using h1 len1 by (intro push_heap_loop_set) simp
    with False l c1 show ?thesis by (auto simp: adjust_heap_def Let_def)
  qed
qed

lemma pq_push_set: "set (pq_push ns c v) \<subseteq> insert v (set c)"
  unfolding pq_push_def using push_heap_loop_set[of "length c" "c @ [v]" ns 0 v] by auto

lemma pq_pop_set: "set (pq_pop ns c) \<subseteq> set c"
proof (cases "length c > 1")
  case True
  let ?l = "length c - 1"
  let ?c1 = "c[?l := c ! 0]"
  have "set (adjust_heap ns ?c1 0 ?l (c ! ?l)) \<subseteq> insert (c ! ?l) (set ?c1)"
  proof (intro adjust_heap_set)
    from True have "0 < length c" by linarith
    then show "0 < length ?c1" by (simp only: length_list_update)
    show "?l \<le> length ?c1" by simp
  qed
  also have "\<dots> \<subseteq> set c"
  proof -
    from True have l: "?l < length c" and z: "0 < length c" by linarith+
    have "c ! ?l \<in> set c" "c ! 0 \<in> set c" by (rule nth_mem[OF l], rule nth_mem[OF z])
    with set_update_subset_insert[of c ?l "c ! 0"] show ?thesis by auto
  qed
  finally have "set (butlast (adjust_heap ns ?c1 0 ?l (c ! ?l))) \<subseteq> set c"
    by (auto dest: in_set_butlastD)
  with True show ?thesis by (simp add: pq_pop_def Let_def)
next
  case False
  then show ?thesis by (auto simp: pq_pop_def dest: in_set_butlastD)
qed

lemma prim_adj_total:
  assumes "\<forall>v \<in> set as. v < length ns \<and> find_edge es 0 u v \<noteq> None"
    and "\<forall>p \<in> set pq. p < length ns"
  shows "\<exists>ns' pq'. prim_adj es in_mst u as (ns, pq, lg) = Inr (ns', pq', lg @ map (Pair u) as) \<and>
     (\<forall>p \<in> set pq'. p < length ns)"
  using assms
proof (induction as arbitrary: ns pq lg)
  case Nil
  then show ?case by simp
next
  case (Cons adj rest)
  let ?lg = "lg @ [(u, adj)]"
  from Cons.prems(1) have a: "adj < length ns" and rest: "\<forall>v \<in> set rest. v < length ns \<and> find_edge es 0 u v \<noteq> None"
    by simp_all
  from Cons.prems(1) obtain e where e: "find_edge es 0 u adj = Some e" by auto
  show ?case
  proof (cases "adj \<notin> in_mst \<and> distance (ns ! adj) > weight (es ! e)")
    case True
    let ?ns = "relax u adj (weight (es ! e)) ns"
    have 1: "\<forall>v \<in> set rest. v < length ?ns \<and> find_edge es 0 u v \<noteq> None" using rest by simp
    have 2: "\<forall>p \<in> set (pq_push ?ns pq adj). p < length ?ns"
      using pq_push_set[of ?ns pq adj] Cons.prems(2) a by auto
    from Cons.IH[OF 1 2, of ?lg] True a e show ?thesis by (simp add: prim_adj_Cons)
  next
    case False
    from Cons.IH[OF rest Cons.prems(2), of ?lg] False a e show ?thesis
      by (auto simp: prim_adj_Cons)
  qed
qed

lemma prim_loop_total:
  "wf_adj A \<Longrightarrow> edge_backed es A \<Longrightarrow> map adj_list ns = A \<Longrightarrow>
     \<forall>p \<in> set pq. p < length ns \<Longrightarrow> lookups_found es lg \<Longrightarrow>
     \<exists>ns' lg'. prim_loop es (ns, pq, in_mst, lg) = Inr (ns', lg') \<and> lookups_found es lg'"
proof (induction es "(ns, pq, in_mst, lg)" arbitrary: ns pq in_mst lg rule: prim_loop.induct)
  case (1 es ns pq in_mst lg)
  note assms = "1.prems"(1,2)
  note prems = "1.prems"(3,4,5)
  show ?case
  proof (cases "pq = []")
    case True
    with prems show ?thesis by (simp add: prim_loop.simps)
  next
    case False
    let ?u = "hd pq"
    from False prems(2) have u: "?u < length ns" by simp
    from prems(1) have lenA: "length A = length ns" by auto
    from prems(1) u have Au: "A ! ?u = adj_list (ns ! ?u)" by auto
    have nb: "\<forall>v \<in> set (adj_list (ns ! ?u)). v < length ns \<and> find_edge es 0 ?u v \<noteq> None"
    proof
      fix v assume "v \<in> set (adj_list (ns ! ?u))"
      then have v: "v \<in> set (A ! ?u)" by (simp add: Au)
      from assms(1) u lenA v have "v < length ns" unfolding wf_adj_iff by metis
      moreover from assms(2) u lenA v have "find_edge es 0 ?u v \<noteq> None"
        unfolding edge_backed_iff by metis
      ultimately show "v < length ns \<and> find_edge es 0 ?u v \<noteq> None" ..
    qed
    have pq1: "\<forall>p \<in> set (pq_pop ns pq). p < length ns"
      using pq_pop_set[of ns pq] prems(2) by auto
    from prim_adj_total[OF nb pq1, of "insert ?u in_mst" lg]
    obtain ns1 pq1 where adj: "prim_adj es (insert ?u in_mst) ?u (adj_list (ns ! ?u))
        (ns, pq_pop ns pq, lg) = Inr (ns1, pq1, lg @ map (Pair ?u) (adj_list (ns ! ?u)))"
      and pq1': "\<forall>p \<in> set pq1. p < length ns" by blast
    let ?lg1 = "lg @ map (Pair ?u) (adj_list (ns ! ?u))"
    from adj u have it: "prim_iter es (ns, pq, in_mst, lg) = Inr (ns1, pq1, insert ?u in_mst, ?lg1)"
      by (simp add: prim_iter_def Let_def)
    from prim_adj_kept[OF adj] have k: "prim_kept ns ns1" by simp
    then have A1: "map adj_list ns1 = A" and len1: "length ns1 = length ns"
      using prems(1) by (simp_all add: prim_kept_def prim_kept_length)
    have lf: "lookups_found es ?lg1"
      using prems(3) nb by (auto simp: lookups_found_def list_all_iff)
    from "1.hyps"[OF False it assms A1 _ lf] pq1' len1
    obtain ns' lg' where "prim_loop es (ns1, pq1, insert ?u in_mst, ?lg1) = Inr (ns', lg')"
      "lookups_found es lg'" by auto
    with False it show ?thesis by (simp add: prim_loop.simps)
  qed
qed

lemma prim_run_total:
  assumes "wf_adj (adjacency g)" "edge_backed (edges g) (adjacency g)" "src < length (nodes g)"
  shows "\<exists>g' lg. prim_run g src = Inr (g', lg) \<and> lookups_found (edges g) lg"
proof -
  let ?ns1 = "prim_start (nodes g) src"
  have 1: "map adj_list ?ns1 = adjacency g" by (simp add: prim_start_fields adjacency_def)
  have len: "length ?ns1 = length (nodes g)" by (simp add: prim_start_def)
  have 2: "\<forall>p \<in> set (pq_push ?ns1 [] src). p < length ?ns1"
    using pq_push_set[of ?ns1 "[]" src] assms(3) len by auto
  have 3: "lookups_found (edges g) []" by (simp add: lookups_found_def)
  from prim_loop_total[OF assms(1,2) 1 2 3, of "{}"]
  obtain ns' lg' where "prim_loop (edges g) (?ns1, pq_push ?ns1 [] src, {}, []) = Inr (ns', lg')"
    "lookups_found (edges g) lg'" by blast
  with assms(3) show ?thesis by (simp add: prim_run_unfold)
qed

section \<open>Prim's algorithm: a node dequeued again\<close>

lemma prim_adj_relaxed:
  "prim_adj es in_mst u as (ns, pq, lg) = Inr (ns', pq', lg') \<Longrightarrow>
     \<forall>v \<in> set as. v \<in> in_mst \<or>
       (v < length ns \<and> (\<exists>e. find_edge es 0 u v = Some e \<and> distance (ns' ! v) \<le> weight (es ! e)))"
proof (induction as arbitrary: ns pq lg)
  case Nil
  then show ?case by simp
next
  case (Cons adj rest)
  let ?lg = "lg @ [(u, adj)]"
  let ?P = "\<lambda>ns v. v \<in> in_mst \<or>
       (v < length ns \<and> (\<exists>e. find_edge es 0 u v = Some e \<and> distance (ns' ! v) \<le> weight (es ! e)))"
  show ?case
  proof (cases "adj \<in> in_mst")
    case True
    with Cons.prems have "prim_adj es in_mst u rest (ns, pq, ?lg) = Inr (ns', pq', lg')"
      by (simp add: prim_adj_Cons)
    from Cons.IH[OF this] True show ?thesis by simp
  next
    case False
    with Cons.prems have a: "adj < length ns" by (simp add: prim_adj_Cons split: if_splits)
    with False Cons.prems obtain e where e: "find_edge es 0 u adj = Some e"
      by (cases "find_edge es 0 u adj") (simp_all add: prim_adj_Cons)
    show ?thesis
    proof (cases "distance (ns ! adj) > weight (es ! e)")
      case True
      let ?ns = "relax u adj (weight (es ! e)) ns"
      from True False a e Cons.prems
      have run: "prim_adj es in_mst u rest (?ns, pq_push ?ns pq adj, ?lg) = Inr (ns', pq', lg')"
        by (simp add: prim_adj_Cons)
      from prim_adj_kept[OF run] a have "distance (ns' ! adj) \<le> distance (?ns ! adj)"
        by (simp add: prim_kept_def)
      with a have "distance (ns' ! adj) \<le> weight (es ! e)" by (simp add: relax_nth)
      with a e have "?P ns adj" by simp
      moreover from Cons.IH[OF run] have "\<forall>v \<in> set rest. ?P ns v" by simp
      ultimately show ?thesis by simp
    next
      case nt: False
      with False a e Cons.prems
      have run: "prim_adj es in_mst u rest (ns, pq, ?lg) = Inr (ns', pq', lg')"
        by (simp add: prim_adj_Cons)
      from prim_adj_kept[OF run] a have "distance (ns' ! adj) \<le> distance (ns ! adj)"
        by (simp add: prim_kept_def)
      with nt have "distance (ns' ! adj) \<le> weight (es ! e)" by simp
      with a e have "?P ns adj" by simp
      moreover from Cons.IH[OF run] have "\<forall>v \<in> set rest. ?P ns v" by simp
      ultimately show ?thesis by simp
    qed
  qed
qed

lemma prim_kept_adj: "prim_kept ns ns' \<Longrightarrow> u < length ns \<Longrightarrow> adj_list (ns' ! u) = adj_list (ns ! u)"
proof -
  assume k: "prim_kept ns ns'" and u: "u < length ns"
  then have "length ns' = length ns" by (simp add: prim_kept_length)
  with u have "adj_list (ns' ! u) = map adj_list ns' ! u" by simp
  also from k have "\<dots> = map adj_list ns ! u" by (simp add: prim_kept_def)
  also from u have "\<dots> = adj_list (ns ! u)" by simp
  finally show ?thesis .
qed

lemma settled_iter:
  assumes s: "settled es ns in_mst"
    and it: "prim_iter es (ns, pq, in_mst, lg) = Inr (ns', pq', in_mst', lg')"
  shows "settled es ns' in_mst'"
proof -
  let ?u = "hd pq"
  from it have u: "?u < length ns" and m: "in_mst' = insert ?u in_mst"
    and run: "prim_adj es (insert ?u in_mst) ?u (adj_list (ns ! ?u)) (ns, pq_pop ns pq, lg)
      = Inr (ns', pq', lg')"
    by (auto simp: prim_iter_def Let_def split: if_splits sum.splits)
  from prim_adj_kept[OF run] have k: "prim_kept ns ns'" by simp
  then have len: "length ns' = length ns" by (rule prim_kept_length)
  have "w < length ns' \<and>
        (\<forall>v \<in> set (adj_list (ns' ! w)). v \<in> in_mst' \<or>
           (v < length ns' \<and>
            (\<exists>e. find_edge es 0 w v = Some e \<and> distance (ns' ! v) \<le> weight (es ! e))))"
    if w: "w \<in> in_mst'" for w
  proof (cases "w = ?u")
    case True
    from prim_adj_relaxed[OF run] show ?thesis
      unfolding True m len prim_kept_adj[OF k u] using u by simp
  next
    case False
    with w m have wm: "w \<in> in_mst" by simp
    with s have wl: "w < length ns" and
      old: "\<forall>v \<in> set (adj_list (ns ! w)). v \<in> in_mst \<or>
           (v < length ns \<and>
            (\<exists>e. find_edge es 0 w v = Some e \<and> distance (ns ! v) \<le> weight (es ! e)))"
      unfolding settled_def by blast+
    have "v \<in> in_mst' \<or>
           (v < length ns' \<and>
            (\<exists>e. find_edge es 0 w v = Some e \<and> distance (ns' ! v) \<le> weight (es ! e)))"
      if "v \<in> set (adj_list (ns ! w))" for v
    proof (cases "v \<in> in_mst")
      case True
      then show ?thesis by (simp add: m)
    next
      case False
      with old that obtain e where v: "v < length ns" and e: "find_edge es 0 w v = Some e"
        and d: "distance (ns ! v) \<le> weight (es ! e)" by blast
      from k v have "distance (ns' ! v) \<le> distance (ns ! v)" by (simp add: prim_kept_def)
      with d v e show ?thesis by (simp add: len)
    qed
    then show ?thesis using wl by (simp add: len prim_kept_adj[OF k wl])
  qed
  then show ?thesis unfolding settled_def by blast
qed

lemma prim_reaches_settled:
  "prim_reaches g src st \<Longrightarrow> settled (edges g) (fst st) (fst (snd (snd st)))"
proof (induction rule: prim_reaches.induct)
  case prim_reaches_start
  then show ?case by (simp add: settled_def)
next
  case (prim_reaches_iter ns pq in_mst lg st')
  obtain ns' pq' in_mst' lg' where st': "st' = (ns', pq', in_mst', lg')" by (cases st')
  from prim_reaches_iter.IH have "settled (edges g) ns in_mst" by simp
  from settled_iter[OF this prim_reaches_iter.hyps(3)[unfolded st']] st' show ?case by simp
qed

lemma settled_noop:
  assumes s: "settled es ns in_mst" and u: "u \<in> in_mst"
  shows "set as \<subseteq> set (adj_list (ns ! u)) \<Longrightarrow>
     prim_adj es in_mst u as (ns, pq, lg) = Inr (ns, pq, lg @ map (Pair u) as)"
proof (induction as arbitrary: lg)
  case Nil
  then show ?case by simp
next
  case (Cons adj rest)
  from Cons.prems have a: "adj \<in> set (adj_list (ns ! u))" and r: "set rest \<subseteq> set (adj_list (ns ! u))"
    by simp_all
  from s u a have "adj \<in> in_mst \<or> (adj < length ns \<and>
      (\<exists>e. find_edge es 0 u adj = Some e \<and> distance (ns ! adj) \<le> weight (es ! e)))"
    unfolding settled_def by blast
  then have "prim_adj es in_mst u (adj # rest) (ns, pq, lg) =
      prim_adj es in_mst u rest (ns, pq, lg @ [(u, adj)])"
    by (auto simp: prim_adj_Cons)
  with Cons.IH[OF r, of "lg @ [(u, adj)]"] show ?case by simp
qed

lemma stale_dequeue:
  assumes "prim_reaches g src (ns, pq, in_mst, lg)" "pq \<noteq> []" "hd pq \<in> in_mst"
  shows "prim_iter (edges g) (ns, pq, in_mst, lg) =
     Inr (ns, pq_pop ns pq, in_mst, lg @ map (Pair (hd pq)) (adj_list (ns ! hd pq)))"
proof -
  from prim_reaches_settled[OF assms(1)] have s: "settled (edges g) ns in_mst" by simp
  with assms(3) have u: "hd pq < length ns" unfolding settled_def by blast
  from assms(3) have m: "insert (hd pq) in_mst = in_mst" by auto
  from settled_noop[OF s assms(3) subset_refl, of "pq_pop ns pq" lg] u m
  show ?thesis by (simp add: prim_iter_def Let_def)
qed

section \<open>Prim's algorithm: the tree it leaves\<close>

text \<open>
  C2 claims that after \<open>prim(src)\<close> on a connected weighted graph built by
  \<open>insert_edge\<close> the predecessor edges form a spanning tree of minimum total weight.
  The code does not deliver that. On the graph \<open>kite\<close> (five nodes, six edges, no
  parallel edges) the distance of node 4 is lowered from 30 to 1 while node 4 is
  already in the heap; the heap is not reordered, the next \<open>top()\<close> is node 2 with
  distance 10, and node 2 is committed with the edge of weight 10 although an edge of
  weight 2 joins it to node 4. The tree has weight 36; the spanning tree of the edges
  0, 2, 4 and 5 has weight 28. On \<open>parallel_pair\<close> (two nodes joined by an edge of
  weight 5 and an edge of weight 1) \<open>get_edge\<close> always finds the first of the two
  edges: the tree has weight 5, the spanning tree of edge 1 has weight 1. There the
  heap never holds more than one element.
\<close>

theorem prim_tree_not_minimum:
  "prim kite 0 =
     Inr \<lparr>nodes = [\<lparr>data = 0, color = white, distance = 0, predecessor = None, adj_list = [1, 2, 3, 4]\<rparr>,
               \<lparr>data = 1, color = white, distance = 5, predecessor = Some 0, adj_list = [0, 4]\<rparr>,
               \<lparr>data = 2, color = white, distance = 10, predecessor = Some 0, adj_list = [0, 4]\<rparr>,
               \<lparr>data = 3, color = white, distance = 20, predecessor = Some 0, adj_list = [0]\<rparr>,
               \<lparr>data = 4, color = white, distance = 1, predecessor = Some 1, adj_list = [0, 1, 2]\<rparr>],
      edges = [\<lparr>source = 0, destination = 1, weight = 5\<rparr>,
               \<lparr>source = 0, destination = 2, weight = 10\<rparr>,
               \<lparr>source = 0, destination = 3, weight = 20\<rparr>,
               \<lparr>source = 0, destination = 4, weight = 30\<rparr>,
               \<lparr>source = 1, destination = 4, weight = 1\<rparr>,
               \<lparr>source = 2, destination = 4, weight = 2\<rparr>],
      tot_nodes = 5, tot_edges = 6\<rparr> \<and>
   map (pred_edge (projr (prim kite 0))) [0, 1, 2, 3, 4] = [None, Some 0, Some 1, Some 2, Some 4] \<and>
   tree_weight (projr (prim kite 0)) = 36 \<and>
   spanning_tree kite [0, 2, 4, 5] \<and> edge_weight_sum kite [0, 2, 4, 5] = 28 \<and>
   prim parallel_pair 0 =
     Inr \<lparr>nodes = [\<lparr>data = 0, color = white, distance = 0, predecessor = None, adj_list = [1, 1]\<rparr>,
               \<lparr>data = 1, color = white, distance = 5, predecessor = Some 0, adj_list = [0, 0]\<rparr>],
      edges = [\<lparr>source = 0, destination = 1, weight = 5\<rparr>,
               \<lparr>source = 0, destination = 1, weight = 1\<rparr>],
      tot_nodes = 2, tot_edges = 2\<rparr> \<and>
   tree_weight (projr (prim parallel_pair 0)) = 5 \<and>
   spanning_tree parallel_pair [1] \<and> edge_weight_sum parallel_pair [1] = 1"
  unfolding kite_def parallel_pair_def by code_simp

text \<open>
  C4, as claimed: a node that is dequeued again after it was committed is skipped, so
  that its adjacency list is not processed again. On \<open>triangle\<close>, node 2 is pushed
  twice and dequeued twice; the second time it is in \<open>in_mst\<close> already, and the loop
  over its adjacency list runs again: the calls \<open>get_edge(2, 0)\<close> and
  \<open>get_edge(2, 1)\<close> are made on both dequeues.
\<close>

theorem prim_stale_dequeue_counterexample:
  "prim_run triangle 0 =
     Inr (\<lparr>nodes = [\<lparr>data = 0, color = white, distance = 0, predecessor = None, adj_list = [1, 2]\<rparr>,
               \<lparr>data = 1, color = white, distance = 5, predecessor = Some 0, adj_list = [0, 2]\<rparr>,
               \<lparr>data = 2, color = white, distance = 1, predecessor = Some 1, adj_list = [0, 1]\<rparr>],
      edges = [\<lparr>source = 0, destination = 1, weight = 5\<rparr>,
               \<lparr>source = 0, destination = 2, weight = 10\<rparr>,
               \<lparr>source = 1, destination = 2, weight = 1\<rparr>],
      tot_nodes = 3, tot_edges = 3\<rparr>,
          [(0, 1), (0, 2), (1, 0), (1, 2), (2, 0), (2, 1), (2, 0), (2, 1)]) \<and>
   hd [2 :: nat] \<in> {0, 1, 2} \<and>
   prim_iter (edges triangle)
     (triangle_nodes 1 (Some 1), [2], {0, 1, 2}, [(0, 1), (0, 2), (1, 0), (1, 2), (2, 0), (2, 1)]) =
   Inr (triangle_nodes 1 (Some 1), [], {0, 1, 2},
        [(0, 1), (0, 2), (1, 0), (1, 2), (2, 0), (2, 1), (2, 0), (2, 1)])"
  unfolding triangle_def by code_simp

text \<open>
  C4, amended: the loop has no check of the dequeued node. When a node that is already
  in \<open>in_mst\<close> is dequeued again, the loop over its adjacency list runs again and
  \<open>get_edge\<close> is called for each entry, but every neighbour fails the test (it is in
  \<open>in_mst\<close>, or its distance is not greater than the weight of the edge): no node's
  distance or predecessor changes, nothing is pushed, and \<open>in_mst\<close> stays as it is.
  This holds in every state that the loop of \<open>prim\<close> reaches.
\<close>

theorem prim_stale_dequeue_changes_nothing:
  assumes "prim_reaches g src (ns, pq, in_mst, lg)" and "pq \<noteq> []" and "hd pq \<in> in_mst"
  shows "prim_iter (edges g) (ns, pq, in_mst, lg) =
     Inr (ns, pq_pop ns pq, in_mst, lg @ map (Pair (hd pq)) (adj_list (ns ! hd pq)))"
  using assms by (rule stale_dequeue)

theorem prim_stale_dequeue_changes_nothing_witness:
  "prim_reaches triangle 0
     (triangle_nodes 1 (Some 1), [2], {0, 1, 2}, [(0, 1), (0, 2), (1, 0), (1, 2), (2, 0), (2, 1)]) \<and>
   prim_iter (edges triangle)
     (triangle_nodes 1 (Some 1), [2], {0, 1, 2}, [(0, 1), (0, 2), (1, 0), (1, 2), (2, 0), (2, 1)]) =
   Inr (triangle_nodes 1 (Some 1), [], {0, 1, 2},
        [(0, 1), (0, 2), (1, 0), (1, 2), (2, 0), (2, 1), (2, 0), (2, 1)])"
proof -
  let ?es = "edges triangle"
  let ?ns0 = "prim_start (nodes triangle) 0"
  have "0 < length (nodes triangle)" by code_simp
  then have r0: "prim_reaches triangle 0 (?ns0, pq_push ?ns0 [] 0, {}, [])"
    by (rule prim_reaches_start)
  have p0: "pq_push ?ns0 [] 0 \<noteq> []" by code_simp
  have i0: "prim_iter ?es (?ns0, pq_push ?ns0 [] 0, {}, []) =
      Inr (triangle_nodes 10 (Some 0), [1, 2], {0}, [(0, 1), (0, 2)])"
    by code_simp
  from prim_reaches_iter[OF r0 p0 i0]
  have r1: "prim_reaches triangle 0 (triangle_nodes 10 (Some 0), [1, 2], {0}, [(0, 1), (0, 2)])" .
  have i1: "prim_iter ?es (triangle_nodes 10 (Some 0), [1, 2], {0}, [(0, 1), (0, 2)]) =
      Inr (triangle_nodes 1 (Some 1), [2, 2], {0, 1}, [(0, 1), (0, 2), (1, 0), (1, 2)])"
    by code_simp
  from prim_reaches_iter[OF r1 _ i1]
  have r2: "prim_reaches triangle 0
      (triangle_nodes 1 (Some 1), [2, 2], {0, 1}, [(0, 1), (0, 2), (1, 0), (1, 2)])" by simp
  have i2: "prim_iter ?es (triangle_nodes 1 (Some 1), [2, 2], {0, 1}, [(0, 1), (0, 2), (1, 0), (1, 2)]) =
      Inr (triangle_nodes 1 (Some 1), [2], {0, 1, 2}, [(0, 1), (0, 2), (1, 0), (1, 2), (2, 0), (2, 1)])"
    by code_simp
  from prim_reaches_iter[OF r2 _ i2]
  have r3: "prim_reaches triangle 0
      (triangle_nodes 1 (Some 1), [2], {0, 1, 2}, [(0, 1), (0, 2), (1, 0), (1, 2), (2, 0), (2, 1)])"
    by simp
  have m: "hd [2::nat] \<in> {0, 1, 2}" by simp
  have a: "adj_list (triangle_nodes 1 (Some 1) ! hd [2::nat]) = [0, 1]"
    by (simp add: triangle_nodes_def)
  have pp: "pq_pop (triangle_nodes 1 (Some 1)) [2] = []" by code_simp
  from prim_stale_dequeue_changes_nothing[OF r3 _ m] a pp r3 show ?thesis by simp
qed

text \<open>
  C6: in a graph whose adjacency entries were all created by \<open>insert_edge\<close> (built from
  the empty store by \<open>insert_node\<close> of nodes without neighbours and by \<open>insert_edge\<close>,
  whatever the search state of its nodes), \<open>get_edge(u, v)\<close> finds an edge for every
  entry \<open>v\<close> of the adjacency list of every node \<open>u\<close>; \<open>prim\<close> from a node of the store
  returns, every call of \<open>get_edge\<close> it made found an edge, and the branch of the null
  edge is not taken.
\<close>

theorem prim_get_edge_never_null:
  assumes "built g" and "src < length (nodes g)"
  shows "(\<forall>u < length (nodes g). \<forall>v \<in> set (adj_list (nodes g ! u)). get_edge g u v \<noteq> None) \<and>
     (\<exists>g' lg. prim_run g src = Inr (g', lg) \<and> prim g src = Inr g' \<and>
        list_all (\<lambda>(u, v). get_edge g u v \<noteq> None) lg) \<and>
     prim g src \<noteq> Inl NullEdge"
proof -
  from built_invariant[OF assms(1)] have wf: "wf_adj (adjacency g)"
    and eb: "edge_backed (edges g) (adjacency g)" by simp_all
  from eb have 1: "\<forall>u < length (nodes g). \<forall>v \<in> set (adj_list (nodes g ! u)). get_edge g u v \<noteq> None"
    unfolding edge_backed_iff by (simp add: adjacency_def get_edge_def)
  from prim_run_total[OF wf eb assms(2)] obtain g' lg where run: "prim_run g src = Inr (g', lg)"
    and lf: "lookups_found (edges g) lg" by blast
  from run have p: "prim g src = Inr g'" by (simp add: prim_def)
  from lf have "list_all (\<lambda>(u, v). get_edge g u v \<noteq> None) lg"
    by (simp add: lookups_found_def get_edge_def)
  with 1 run p show ?thesis by auto
qed

theorem prim_get_edge_never_null_witness:
  "built triangle \<and> 0 < length (nodes triangle) \<and> get_edge triangle 2 1 = Some 2 \<and>
   prim triangle 0 \<noteq> Inl NullEdge"
proof -
  have b: "built triangle" unfolding triangle_def by (rule built_load)
  have l: "0 < length (nodes triangle)" by code_simp
  have e: "get_edge triangle 2 1 = Some 2" by code_simp
  from prim_get_edge_never_null[OF b l] b l e show ?thesis by blast
qed

section \<open>Running a search twice; the frame of the searches\<close>

subsection \<open>The result does not depend on the search state left before\<close>

text \<open>
  \<open>bfs\<close> overwrites colour, distance and predecessor of every node before its loop, so
  two stores with the same identities and adjacency lists are the same after the
  reset. \<open>prim\<close> overwrites distance and predecessor only; its loop and the heap
  operations read distances, adjacency lists and edges, never colours or identities,
  so they run in step on two node vectors related by \<open>same_search\<close>.
\<close>

lemma map_eq_nth: "map f xs = map f ys \<Longrightarrow> i < length ys \<Longrightarrow> f (xs ! i) = f (ys ! i)"
proof -
  assume e: "map f xs = map f ys" and i: "i < length ys"
  from e have "length xs = length ys" by (rule map_eq_imp_length_eq)
  with i have "f (xs ! i) = map f xs ! i" by simp
  also have "\<dots> = map f ys ! i" by (simp only: e)
  also from i have "\<dots> = f (ys ! i)" by simp
  finally show ?thesis .
qed

lemma same_search_length: "same_search ns ns' \<Longrightarrow> length ns' = length ns"
  unfolding same_search_def by (metis length_map)

lemma same_search_nth:
  assumes "same_search ns ns'" "p < length ns"
  shows "distance (ns' ! p) = distance (ns ! p)" "predecessor (ns' ! p) = predecessor (ns ! p)"
    "adj_list (ns' ! p) = adj_list (ns ! p)"
  using assms by (auto simp: same_search_def intro: map_eq_nth)

lemma compare_cong:
  assumes "same_search ns ns'" "a < length ns" "b < length ns"
  shows "compare ns' a b = compare ns a b"
  using assms by (simp add: compare_def same_search_nth)

lemma update_valid:
  assumes "\<forall>p \<in> set c. p < (n::nat)" "x < n"
  shows "\<forall>p \<in> set (c[i := x]). p < n"
  using assms set_update_subset_insert[of c i x] by auto

lemma push_heap_loop_cong:
  "same_search ns ns' \<Longrightarrow> holeIndex < length c \<Longrightarrow> \<forall>p \<in> set c. p < length ns \<Longrightarrow>
     v < length ns \<Longrightarrow>
     push_heap_loop ns' c holeIndex topIndex v = push_heap_loop ns c holeIndex topIndex v"
proof (induction ns c holeIndex topIndex v rule: push_heap_loop.induct)
  case (1 ns c holeIndex topIndex v)
  let ?parent = "(holeIndex - 1) div 2"
  from "1.prems"(2) have pl: "?parent < length c" by arith
  with "1.prems"(3) have pv: "c ! ?parent < length ns" by simp
  from compare_cong[OF "1.prems"(1) pv "1.prems"(4)]
  have cmp: "compare ns' (c ! ?parent) v = compare ns (c ! ?parent) v" .
  show ?case
  proof (cases "holeIndex > topIndex \<and> compare ns (c ! ?parent) v")
    case True
    have valid: "\<forall>p \<in> set (c[holeIndex := c ! ?parent]). p < length ns"
      using "1.prems"(3) pv by (rule update_valid)
    from "1.IH"[OF refl True "1.prems"(1) _ valid "1.prems"(4)] pl
    have "push_heap_loop ns' (c[holeIndex := c ! ?parent]) ?parent topIndex v =
        push_heap_loop ns (c[holeIndex := c ! ?parent]) ?parent topIndex v" by simp
    with True cmp show ?thesis
      by (subst push_heap_loop.simps, subst (2) push_heap_loop.simps) (simp add: Let_def)
  next
    case False
    with cmp show ?thesis
      by (subst push_heap_loop.simps, subst (2) push_heap_loop.simps) (auto simp: Let_def)
  qed
qed

lemma adjust_heap_loop_cong:
  "same_search ns ns' \<Longrightarrow> len \<le> length c \<Longrightarrow> \<forall>p \<in> set c. p < length ns \<Longrightarrow>
     adjust_heap_loop ns' c holeIndex secondChild len = adjust_heap_loop ns c holeIndex secondChild len"
proof (induction ns c holeIndex secondChild len rule: adjust_heap_loop.induct)
  case (1 ns c holeIndex secondChild len)
  show ?case
  proof (cases "secondChild < (len - 1) div 2")
    case True
    define right where "right = 2 * (secondChild + 1)"
    define pick where "pick = (if compare ns (c ! right) (c ! (right - 1)) then right - 1 else right)"
    from True have rl: "right < len" unfolding right_def by arith
    with "1.prems"(2) have r: "right < length c" "right - 1 < length c" by simp_all
    with "1.prems"(3) have rv: "c ! right < length ns" "c ! (right - 1) < length ns" by simp_all
    from compare_cong[OF "1.prems"(1) rv]
    have cmp: "compare ns' (c ! right) (c ! (right - 1)) = compare ns (c ! right) (c ! (right - 1))" .
    from r have pk: "pick < length c" by (simp add: pick_def)
    with "1.prems"(3) have pv: "c ! pick < length ns" by simp
    have valid: "\<forall>p \<in> set (c[holeIndex := c ! pick]). p < length ns"
      using "1.prems"(3) pv by (rule update_valid)
    from "1.IH"[OF True right_def pick_def "1.prems"(1) _ valid] "1.prems"(2)
    have ih: "adjust_heap_loop ns' (c[holeIndex := c ! pick]) pick pick len =
        adjust_heap_loop ns (c[holeIndex := c ! pick]) pick pick len" by simp
    have a: "adjust_heap_loop ns c holeIndex secondChild len =
        adjust_heap_loop ns (c[holeIndex := c ! pick]) pick pick len"
      using True by (subst adjust_heap_loop.simps) (simp add: Let_def pick_def right_def)
    have b: "adjust_heap_loop ns' c holeIndex secondChild len =
        adjust_heap_loop ns' (c[holeIndex := c ! pick]) pick pick len"
      using True cmp by (subst adjust_heap_loop.simps) (simp add: Let_def pick_def right_def)
    from a b ih show ?thesis by simp
  next
    case False
    then show ?thesis
      by (subst adjust_heap_loop.simps, subst (2) adjust_heap_loop.simps) simp
  qed
qed

lemma adjust_heap_cong:
  assumes s: "same_search ns ns'" and h: "holeIndex < length c" and l: "len \<le> length c"
    and c: "\<forall>p \<in> set c. p < length ns" and v: "v < length ns"
  shows "adjust_heap ns' c holeIndex len v = adjust_heap ns c holeIndex len v"
proof -
  obtain c1 h1 s1 where lp: "adjust_heap_loop ns c holeIndex holeIndex len = (c1, h1, s1)"
    by (cases "adjust_heap_loop ns c holeIndex holeIndex len")
  from adjust_heap_loop_cong[OF s l c, of holeIndex holeIndex] lp
  have lp': "adjust_heap_loop ns' c holeIndex holeIndex len = (c1, h1, s1)" by simp
  from adjust_heap_loop_set[OF h l, of ns holeIndex] lp
  have c1: "set c1 \<subseteq> set c" and h1: "h1 < length c" by simp_all
  from adjust_heap_loop_length[of ns c holeIndex holeIndex len] lp
  have len1: "length c1 = length c" by simp
  from c1 c have c1v: "\<forall>p \<in> set c1. p < length ns" by blast
  show ?thesis
  proof (cases "even len \<and> 2 \<le> len \<and> s1 = (len - 2) div 2")
    case True
    let ?r = "2 * (s1 + 1) - 1"
    from True l len1 have r: "?r < length c1" by auto
    with c1v have rv: "c1 ! ?r < length ns" by simp
    have valid: "\<forall>p \<in> set (c1[h1 := c1 ! ?r]). p < length ns"
      using c1v rv by (rule update_valid)
    from push_heap_loop_cong[OF s _ valid v, of ?r holeIndex] r
    have "push_heap_loop ns' (c1[h1 := c1 ! ?r]) ?r holeIndex v =
        push_heap_loop ns (c1[h1 := c1 ! ?r]) ?r holeIndex v" by simp
    with True lp lp' show ?thesis by (simp add: adjust_heap_def Let_def)
  next
    case False
    from push_heap_loop_cong[OF s _ c1v v, of h1 holeIndex] h1 len1
    have "push_heap_loop ns' c1 h1 holeIndex v = push_heap_loop ns c1 h1 holeIndex v" by simp
    with False lp lp' show ?thesis by (auto simp: adjust_heap_def Let_def)
  qed
qed

lemma pq_push_cong:
  assumes "same_search ns ns'" "\<forall>p \<in> set c. p < length ns" "v < length ns"
  shows "pq_push ns' c v = pq_push ns c v"
proof -
  from assms(2,3) have "\<forall>p \<in> set (c @ [v]). p < length ns" by auto
  from push_heap_loop_cong[OF assms(1) _ this assms(3), of "length c" 0]
  show ?thesis by (simp add: pq_push_def)
qed

lemma pq_pop_cong:
  assumes s: "same_search ns ns'" and c: "\<forall>p \<in> set c. p < length ns"
  shows "pq_pop ns' c = pq_pop ns c"
proof (cases "length c > 1")
  case True
  let ?l = "length c - 1"
  let ?c1 = "c[?l := c ! 0]"
  from True have l: "?l < length c" and z: "0 < length c" by linarith+
  from c nth_mem[OF l] nth_mem[OF z] have lv: "c ! ?l < length ns" and zv: "c ! 0 < length ns"
    by blast+
  have valid: "\<forall>p \<in> set ?c1. p < length ns" using c zv by (rule update_valid)
  have h: "0 < length ?c1" using z by (simp only: length_list_update)
  have ll: "?l \<le> length ?c1" by simp
  from adjust_heap_cong[OF s h ll valid lv]
  have "adjust_heap ns' ?c1 0 ?l (c ! ?l) = adjust_heap ns ?c1 0 ?l (c ! ?l)" .
  with True show ?thesis by (simp add: pq_pop_def Let_def)
next
  case False
  then show ?thesis by (simp add: pq_pop_def)
qed

lemma same_search_relax:
  assumes "same_search ns ns'"
  shows "same_search (relax u adj w ns) (relax u adj w ns')"
proof -
  have d: "map distance (relax u adj w xs) = (map distance xs)[adj := w]" for xs
    by (simp add: relax_def map_update)
  have p: "map predecessor (relax u adj w xs) = (map predecessor xs)[adj := Some u]" for xs
    by (simp add: relax_def map_update)
  from assms show ?thesis
    unfolding same_search_def d p relax_fields(3) by simp
qed

lemma prim_adj_cong:
  "same_search ns ns' \<Longrightarrow> \<forall>p \<in> set pq. p < length ns \<Longrightarrow>
     prim_adj es in_mst u as (ns, pq, lg) = Inr (ns1, pq1, lg1) \<Longrightarrow>
     \<exists>ns1'. prim_adj es in_mst u as (ns', pq, lg) = Inr (ns1', pq1, lg1) \<and>
        same_search ns1 ns1' \<and> (\<forall>p \<in> set pq1. p < length ns1)"
proof (induction as arbitrary: ns ns' pq lg)
  case Nil
  then show ?case by simp
next
  case (Cons adj rest)
  let ?lg = "lg @ [(u, adj)]"
  note s = Cons.prems(1) and v = Cons.prems(2) and run = Cons.prems(3)
  from s have len: "length ns' = length ns" by (rule same_search_length)
  show ?case
  proof (cases "adj \<in> in_mst")
    case True
    with run have "prim_adj es in_mst u rest (ns, pq, ?lg) = Inr (ns1, pq1, lg1)"
      by (simp add: prim_adj_Cons)
    from Cons.IH[OF s v this] True show ?thesis by (simp add: prim_adj_Cons)
  next
    case False
    with run have a: "adj < length ns" by (simp add: prim_adj_Cons split: if_splits)
    with False run obtain e where e: "find_edge es 0 u adj = Some e"
      by (cases "find_edge es 0 u adj") (simp_all add: prim_adj_Cons)
    from same_search_nth(1)[OF s a] have d: "distance (ns' ! adj) = distance (ns ! adj)" .
    show ?thesis
    proof (cases "distance (ns ! adj) > weight (es ! e)")
      case True
      let ?ns = "relax u adj (weight (es ! e)) ns"
      let ?ns' = "relax u adj (weight (es ! e)) ns'"
      from True False a e run
      have r: "prim_adj es in_mst u rest (?ns, pq_push ?ns pq adj, ?lg) = Inr (ns1, pq1, lg1)"
        by (simp add: prim_adj_Cons)
      have s': "same_search ?ns ?ns'" using s by (rule same_search_relax)
      have v0: "\<forall>p \<in> set pq. p < length ?ns" using v by simp
      have a0: "adj < length ?ns" using a by simp
      have pc: "pq_push ?ns' pq adj = pq_push ?ns pq adj" using s' v0 a0 by (rule pq_push_cong)
      have v': "\<forall>p \<in> set (pq_push ?ns pq adj). p < length ?ns"
        using pq_push_set[of ?ns pq adj] v a by auto
      from Cons.IH[OF s' v' r] obtain ns1' where
        "prim_adj es in_mst u rest (?ns', pq_push ?ns pq adj, ?lg) = Inr (ns1', pq1, lg1)"
        "same_search ns1 ns1'" "\<forall>p \<in> set pq1. p < length ns1" by blast
      with True False a e d len pc show ?thesis by (auto simp: prim_adj_Cons)
    next
      case nt: False
      with False a e run
      have r: "prim_adj es in_mst u rest (ns, pq, ?lg) = Inr (ns1, pq1, lg1)"
        by (simp add: prim_adj_Cons)
      from Cons.IH[OF s v r] nt False a e d len show ?thesis by (auto simp: prim_adj_Cons)
    qed
  qed
qed

lemma prim_iter_cong:
  assumes s: "same_search ns ns'" and v: "\<forall>p \<in> set pq. p < length ns"
    and it: "prim_iter es (ns, pq, in_mst, lg) = Inr (ns1, pq1, m1, lg1)"
  shows "\<exists>ns1'. prim_iter es (ns', pq, in_mst, lg) = Inr (ns1', pq1, m1, lg1) \<and>
     same_search ns1 ns1' \<and> (\<forall>p \<in> set pq1. p < length ns1)"
proof -
  let ?u = "hd pq"
  from it have u: "?u < length ns" and m: "m1 = insert ?u in_mst"
    and run: "prim_adj es (insert ?u in_mst) ?u (adj_list (ns ! ?u)) (ns, pq_pop ns pq, lg)
      = Inr (ns1, pq1, lg1)"
    by (auto simp: prim_iter_def Let_def split: if_splits sum.splits)
  from s have len: "length ns' = length ns" by (rule same_search_length)
  have pp: "pq_pop ns' pq = pq_pop ns pq" using s v by (rule pq_pop_cong)
  have vp: "\<forall>p \<in> set (pq_pop ns pq). p < length ns" using pq_pop_set[of ns pq] v by auto
  from same_search_nth(3)[OF s u] have al: "adj_list (ns' ! ?u) = adj_list (ns ! ?u)" .
  from prim_adj_cong[OF s vp run] obtain ns1' where
    "prim_adj es (insert ?u in_mst) ?u (adj_list (ns ! ?u)) (ns', pq_pop ns pq, lg)
      = Inr (ns1', pq1, lg1)" "same_search ns1 ns1'" "\<forall>p \<in> set pq1. p < length ns1" by blast
  with u m len pp al show ?thesis by (auto simp: prim_iter_def Let_def)
qed

lemma prim_loop_cong:
  "same_search ns ns' \<Longrightarrow> \<forall>p \<in> set pq. p < length ns \<Longrightarrow>
     prim_loop es (ns, pq, in_mst, lg) = Inr (nsf, lgf) \<Longrightarrow>
     \<exists>nsf'. prim_loop es (ns', pq, in_mst, lg) = Inr (nsf', lgf) \<and> same_search nsf nsf'"
proof (induction es "(ns, pq, in_mst, lg)" arbitrary: ns ns' pq in_mst lg rule: prim_loop.induct)
  case (1 es ns pq in_mst lg)
  show ?case
  proof (cases "pq = []")
    case True
    with "1.prems" show ?thesis by (simp add: prim_loop.simps)
  next
    case False
    with "1.prems"(3) obtain st' where it: "prim_iter es (ns, pq, in_mst, lg) = Inr st'"
      and lp: "prim_loop es st' = Inr (nsf, lgf)"
      by (cases "prim_iter es (ns, pq, in_mst, lg)") (simp_all add: prim_loop.simps)
    obtain ns1 pq1 m1 lg1 where st': "st' = (ns1, pq1, m1, lg1)" by (cases st')
    from prim_iter_cong[OF "1.prems"(1,2) it[unfolded st']] obtain ns1' where
      it': "prim_iter es (ns', pq, in_mst, lg) = Inr (ns1', pq1, m1, lg1)"
      and s1: "same_search ns1 ns1'" and v1: "\<forall>p \<in> set pq1. p < length ns1" by blast
    from "1.hyps"[OF False it[unfolded st'] s1 v1 lp[unfolded st']] obtain nsf' where
      "prim_loop es (ns1', pq1, m1, lg1) = Inr (nsf', lgf)" "same_search nsf nsf'" by blast
    with False it' show ?thesis by (simp add: prim_loop.simps)
  qed
qed

lemma same_search_start:
  assumes "map adj_list ns' = map adj_list ns"
  shows "same_search (prim_start ns src) (prim_start ns' src)"
proof -
  from assms have len: "length ns' = length ns" by (rule map_eq_imp_length_eq)
  have d: "map distance (map prim_reset xs) = replicate (length xs) INT_MAX" for xs
    by (induction xs) (simp_all add: prim_reset_def)
  have p: "map predecessor (map prim_reset xs) = replicate (length xs) None" for xs
    by (induction xs) (simp_all add: prim_reset_def)
  have "map distance (prim_start xs src) = (replicate (length xs) INT_MAX)[src := 0]" for xs
    unfolding prim_start_def map_update d[symmetric] by simp
  moreover have "map predecessor (prim_start xs src) = (replicate (length xs) None)[src := None]" for xs
    unfolding prim_start_def map_update p[symmetric] by simp
  ultimately show ?thesis using len assms by (simp add: same_search_def prim_start_fields)
qed

lemma prim_independent:
  assumes adj: "map adj_list (nodes h) = map adj_list (nodes g)" and es: "edges h = edges g"
    and run: "prim g src = Inr g2"
  shows "\<exists>h2. prim h src = Inr h2 \<and> map distance (nodes h2) = map distance (nodes g2) \<and>
     map predecessor (nodes h2) = map predecessor (nodes g2)"
proof -
  let ?ns = "prim_start (nodes g) src"
  let ?ns' = "prim_start (nodes h) src"
  from run obtain lg where "prim_run g src = Inr (g2, lg)"
    by (auto simp: prim_def split: sum.splits)
  then obtain nsf where loop: "prim_loop (edges g) (?ns, pq_push ?ns [] src, {}, []) = Inr (nsf, lg)"
    and g2: "g2 = g\<lparr>nodes := nsf\<rparr>" and src: "src < length (nodes g)"
    by (auto simp: prim_run_unfold split: if_splits sum.splits)
  from adj have len: "length (nodes h) = length (nodes g)" by (rule map_eq_imp_length_eq)
  have s: "same_search ?ns ?ns'" using adj by (rule same_search_start)
  have ln: "length ?ns = length (nodes g)" by (simp add: prim_start_def)
  have v: "\<forall>p \<in> set (pq_push ?ns [] src). p < length ?ns"
    using pq_push_set[of ?ns "[]" src] src ln by auto
  have pc: "pq_push ?ns' [] src = pq_push ?ns [] src"
    using s _ _ by (rule pq_push_cong) (simp_all add: ln src)
  from prim_loop_cong[OF s v loop] obtain nsf' where
    "prim_loop (edges g) (?ns', pq_push ?ns [] src, {}, []) = Inr (nsf', lg)"
    and sf: "same_search nsf nsf'" by blast
  with pc es src len have "prim_run h src = Inr (h\<lparr>nodes := nsf'\<rparr>, lg)"
    by (simp add: prim_run_unfold)
  then have "prim h src = Inr (h\<lparr>nodes := nsf'\<rparr>)" by (simp add: prim_def)
  with sf g2 show ?thesis by (auto simp: same_search_def)
qed

lemma bfs_independent:
  assumes d: "map data (nodes h) = map data (nodes g)"
    and adj: "map adj_list (nodes h) = map adj_list (nodes g)"
    and run: "bfs g src = Inr g1"
  shows "bfs h src = Inr (h\<lparr>nodes := nodes g1\<rparr>)"
proof -
  let ?ns0 = "map bfs_reset (nodes g)"
  let ?ns1 = "?ns0[src := (?ns0 ! src)\<lparr>distance := 0, color := gray, predecessor := None\<rparr>]"
  from run obtain ns where loop: "bfs_loop ?ns1 [src] = Inr ns" and g1: "g1 = g\<lparr>nodes := ns\<rparr>"
    and src: "src < length (nodes g)"
    by (auto simp: bfs_def Let_def split: if_splits sum.splits)
  from d adj have "map bfs_reset (nodes h) = ?ns0" by (rule map_bfs_reset_cong)
  moreover from d have "length (nodes h) = length (nodes g)" by (rule map_eq_imp_length_eq)
  ultimately show ?thesis using loop src g1 by (simp add: bfs_def Let_def)
qed

lemma prim_independent_same_colours:
  assumes d: "map data (nodes h) = map data (nodes g)"
    and c: "map color (nodes h) = map color (nodes g)"
    and adj: "map adj_list (nodes h) = map adj_list (nodes g)" and es: "edges h = edges g"
    and run: "prim g src = Inr g2"
  shows "prim h src = Inr (h\<lparr>nodes := nodes g2\<rparr>)"
proof -
  let ?ns = "prim_start (nodes g) src"
  from run obtain lg where "prim_run g src = Inr (g2, lg)"
    by (auto simp: prim_def split: sum.splits)
  then obtain nsf where loop: "prim_loop (edges g) (?ns, pq_push ?ns [] src, {}, []) = Inr (nsf, lg)"
    and g2: "g2 = g\<lparr>nodes := nsf\<rparr>" and src: "src < length (nodes g)"
    by (auto simp: prim_run_unfold split: if_splits sum.splits)
  from d c adj have "map prim_reset (nodes h) = map prim_reset (nodes g)"
    by (rule map_prim_reset_cong)
  then have "prim_start (nodes h) src = ?ns" by (simp add: prim_start_def)
  moreover from d have "length (nodes h) = length (nodes g)" by (rule map_eq_imp_length_eq)
  ultimately have "prim_run h src = Inr (h\<lparr>nodes := nsf\<rparr>, lg)"
    using loop src es by (simp add: prim_run_unfold)
  with g2 show ?thesis by (simp add: prim_def)
qed

subsection \<open>Running the same search again\<close>

text \<open>
  C7: when \<open>bfs(src)\<close> has returned, running \<open>bfs(src)\<close> again returns the same graph:
  every node has the colour, distance and predecessor it had after the first run.
  Likewise for \<open>prim(src)\<close>. Each run reinitialises the search state it uses before
  it traverses, so its result does not depend on what an earlier search left: on a
  store \<open>h\<close> with the same identities and adjacency lists as \<open>g\<close>, whatever the
  colours, distances and predecessors of its nodes, \<open>bfs(src)\<close> leaves the nodes that
  it leaves on \<open>g\<close>; with the same adjacency lists and edges, whatever the rest,
  \<open>prim(src)\<close> leaves the distances and predecessors that it leaves on \<open>g\<close> (and the
  same nodes altogether when the identities and colours agree, which \<open>prim\<close> does
  not touch).
\<close>

theorem search_twice_same_result:
  "(bfs g src = Inr g1 \<longrightarrow> bfs g1 src = Inr g1) \<and>
   (prim g src = Inr g2 \<longrightarrow> prim g2 src = Inr g2) \<and>
   (map data (nodes h) = map data (nodes g) \<and> map adj_list (nodes h) = map adj_list (nodes g) \<and>
    bfs g src = Inr g1 \<longrightarrow> bfs h src = Inr (h\<lparr>nodes := nodes g1\<rparr>)) \<and>
   (map data (nodes h) = map data (nodes g) \<and> map color (nodes h) = map color (nodes g) \<and>
    map adj_list (nodes h) = map adj_list (nodes g) \<and> edges h = edges g \<and>
    prim g src = Inr g2 \<longrightarrow> prim h src = Inr (h\<lparr>nodes := nodes g2\<rparr>)) \<and>
   (map adj_list (nodes h) = map adj_list (nodes g) \<and> edges h = edges g \<and>
    prim g src = Inr g2 \<longrightarrow>
      (\<exists>h2. prim h src = Inr h2 \<and> map distance (nodes h2) = map distance (nodes g2) \<and>
         map predecessor (nodes h2) = map predecessor (nodes g2)))"
proof (intro conjI impI)
  assume "bfs g src = Inr g1"
  then show "bfs g1 src = Inr g1" by (rule bfs_idem)
next
  assume "prim g src = Inr g2"
  then obtain lg where "prim_run g src = Inr (g2, lg)"
    by (auto simp: prim_def split: sum.splits)
  from prim_run_idem[OF this] show "prim g2 src = Inr g2" by (simp add: prim_def)
next
  assume "map data (nodes h) = map data (nodes g) \<and> map adj_list (nodes h) = map adj_list (nodes g) \<and>
    bfs g src = Inr g1"
  then show "bfs h src = Inr (h\<lparr>nodes := nodes g1\<rparr>)" by (blast intro: bfs_independent)
next
  assume "map data (nodes h) = map data (nodes g) \<and> map color (nodes h) = map color (nodes g) \<and>
    map adj_list (nodes h) = map adj_list (nodes g) \<and> edges h = edges g \<and> prim g src = Inr g2"
  then show "prim h src = Inr (h\<lparr>nodes := nodes g2\<rparr>)"
    by (blast intro: prim_independent_same_colours)
next
  assume "map adj_list (nodes h) = map adj_list (nodes g) \<and> edges h = edges g \<and>
    prim g src = Inr g2"
  then show "\<exists>h2. prim h src = Inr h2 \<and> map distance (nodes h2) = map distance (nodes g2) \<and>
         map predecessor (nodes h2) = map predecessor (nodes g2)"
    by (blast intro: prim_independent)
qed

theorem search_twice_same_result_witness:
  "bfs path4 0 =
     Inr \<lparr>nodes = [\<lparr>data = 0, color = black, distance = 0, predecessor = None, adj_list = [1]\<rparr>,
               \<lparr>data = 1, color = black, distance = 1, predecessor = Some 0, adj_list = [0, 2]\<rparr>,
               \<lparr>data = 2, color = black, distance = 2, predecessor = Some 1, adj_list = [1, 3]\<rparr>,
               \<lparr>data = 3, color = black, distance = 3, predecessor = Some 2, adj_list = [2]\<rparr>],
      edges = [\<lparr>source = 0, destination = 1, weight = 1\<rparr>,
               \<lparr>source = 1, destination = 2, weight = 2\<rparr>,
               \<lparr>source = 2, destination = 3, weight = 1\<rparr>],
      tot_nodes = 4, tot_edges = 3\<rparr> \<and>
   bfs \<lparr>nodes = [\<lparr>data = 0, color = black, distance = 0, predecessor = None, adj_list = [1]\<rparr>,
               \<lparr>data = 1, color = black, distance = 1, predecessor = Some 0, adj_list = [0, 2]\<rparr>,
               \<lparr>data = 2, color = black, distance = 2, predecessor = Some 1, adj_list = [1, 3]\<rparr>,
               \<lparr>data = 3, color = black, distance = 3, predecessor = Some 2, adj_list = [2]\<rparr>],
      edges = [\<lparr>source = 0, destination = 1, weight = 1\<rparr>,
               \<lparr>source = 1, destination = 2, weight = 2\<rparr>,
               \<lparr>source = 2, destination = 3, weight = 1\<rparr>],
      tot_nodes = 4, tot_edges = 3\<rparr> 0 =
     Inr \<lparr>nodes = [\<lparr>data = 0, color = black, distance = 0, predecessor = None, adj_list = [1]\<rparr>,
               \<lparr>data = 1, color = black, distance = 1, predecessor = Some 0, adj_list = [0, 2]\<rparr>,
               \<lparr>data = 2, color = black, distance = 2, predecessor = Some 1, adj_list = [1, 3]\<rparr>,
               \<lparr>data = 3, color = black, distance = 3, predecessor = Some 2, adj_list = [2]\<rparr>],
      edges = [\<lparr>source = 0, destination = 1, weight = 1\<rparr>,
               \<lparr>source = 1, destination = 2, weight = 2\<rparr>,
               \<lparr>source = 2, destination = 3, weight = 1\<rparr>],
      tot_nodes = 4, tot_edges = 3\<rparr> \<and>
   prim path4 0 =
     Inr \<lparr>nodes = [\<lparr>data = 0, color = white, distance = 0, predecessor = None, adj_list = [1]\<rparr>,
               \<lparr>data = 1, color = white, distance = 1, predecessor = Some 0, adj_list = [0, 2]\<rparr>,
               \<lparr>data = 2, color = white, distance = 2, predecessor = Some 1, adj_list = [1, 3]\<rparr>,
               \<lparr>data = 3, color = white, distance = 1, predecessor = Some 2, adj_list = [2]\<rparr>],
      edges = [\<lparr>source = 0, destination = 1, weight = 1\<rparr>,
               \<lparr>source = 1, destination = 2, weight = 2\<rparr>,
               \<lparr>source = 2, destination = 3, weight = 1\<rparr>],
      tot_nodes = 4, tot_edges = 3\<rparr> \<and>
   prim \<lparr>nodes = [\<lparr>data = 0, color = white, distance = 0, predecessor = None, adj_list = [1]\<rparr>,
               \<lparr>data = 1, color = white, distance = 1, predecessor = Some 0, adj_list = [0, 2]\<rparr>,
               \<lparr>data = 2, color = white, distance = 2, predecessor = Some 1, adj_list = [1, 3]\<rparr>,
               \<lparr>data = 3, color = white, distance = 1, predecessor = Some 2, adj_list = [2]\<rparr>],
      edges = [\<lparr>source = 0, destination = 1, weight = 1\<rparr>,
               \<lparr>source = 1, destination = 2, weight = 2\<rparr>,
               \<lparr>source = 2, destination = 3, weight = 1\<rparr>],
      tot_nodes = 4, tot_edges = 3\<rparr> 0 =
     Inr \<lparr>nodes = [\<lparr>data = 0, color = white, distance = 0, predecessor = None, adj_list = [1]\<rparr>,
               \<lparr>data = 1, color = white, distance = 1, predecessor = Some 0, adj_list = [0, 2]\<rparr>,
               \<lparr>data = 2, color = white, distance = 2, predecessor = Some 1, adj_list = [1, 3]\<rparr>,
               \<lparr>data = 3, color = white, distance = 1, predecessor = Some 2, adj_list = [2]\<rparr>],
      edges = [\<lparr>source = 0, destination = 1, weight = 1\<rparr>,
               \<lparr>source = 1, destination = 2, weight = 2\<rparr>,
               \<lparr>source = 2, destination = 3, weight = 1\<rparr>],
      tot_nodes = 4, tot_edges = 3\<rparr> \<and>
   bfs path4 3 =
     Inr \<lparr>nodes = [\<lparr>data = 0, color = black, distance = 3, predecessor = Some 1, adj_list = [1]\<rparr>,
               \<lparr>data = 1, color = black, distance = 2, predecessor = Some 2, adj_list = [0, 2]\<rparr>,
               \<lparr>data = 2, color = black, distance = 1, predecessor = Some 3, adj_list = [1, 3]\<rparr>,
               \<lparr>data = 3, color = black, distance = 0, predecessor = None, adj_list = [2]\<rparr>],
      edges = [\<lparr>source = 0, destination = 1, weight = 1\<rparr>,
               \<lparr>source = 1, destination = 2, weight = 2\<rparr>,
               \<lparr>source = 2, destination = 3, weight = 1\<rparr>],
      tot_nodes = 4, tot_edges = 3\<rparr> \<and>
   bfs \<lparr>nodes = [\<lparr>data = 0, color = black, distance = 3, predecessor = Some 1, adj_list = [1]\<rparr>,
               \<lparr>data = 1, color = black, distance = 2, predecessor = Some 2, adj_list = [0, 2]\<rparr>,
               \<lparr>data = 2, color = black, distance = 1, predecessor = Some 3, adj_list = [1, 3]\<rparr>,
               \<lparr>data = 3, color = black, distance = 0, predecessor = None, adj_list = [2]\<rparr>],
      edges = [\<lparr>source = 0, destination = 1, weight = 1\<rparr>,
               \<lparr>source = 1, destination = 2, weight = 2\<rparr>,
               \<lparr>source = 2, destination = 3, weight = 1\<rparr>],
      tot_nodes = 4, tot_edges = 3\<rparr> 0 =
     Inr \<lparr>nodes = [\<lparr>data = 0, color = black, distance = 0, predecessor = None, adj_list = [1]\<rparr>,
               \<lparr>data = 1, color = black, distance = 1, predecessor = Some 0, adj_list = [0, 2]\<rparr>,
               \<lparr>data = 2, color = black, distance = 2, predecessor = Some 1, adj_list = [1, 3]\<rparr>,
               \<lparr>data = 3, color = black, distance = 3, predecessor = Some 2, adj_list = [2]\<rparr>],
      edges = [\<lparr>source = 0, destination = 1, weight = 1\<rparr>,
               \<lparr>source = 1, destination = 2, weight = 2\<rparr>,
               \<lparr>source = 2, destination = 3, weight = 1\<rparr>],
      tot_nodes = 4, tot_edges = 3\<rparr> \<and>
   prim \<lparr>nodes = [\<lparr>data = 0, color = white, distance = 7, predecessor = Some 3, adj_list = [1]\<rparr>,
               \<lparr>data = 1, color = white, distance = 7, predecessor = Some 3, adj_list = [0, 2]\<rparr>,
               \<lparr>data = 2, color = white, distance = 7, predecessor = Some 3, adj_list = [1, 3]\<rparr>,
               \<lparr>data = 3, color = white, distance = 7, predecessor = Some 3, adj_list = [2]\<rparr>],
      edges = [\<lparr>source = 0, destination = 1, weight = 1\<rparr>,
               \<lparr>source = 1, destination = 2, weight = 2\<rparr>,
               \<lparr>source = 2, destination = 3, weight = 1\<rparr>],
      tot_nodes = 4, tot_edges = 3\<rparr> 0 =
     Inr \<lparr>nodes = [\<lparr>data = 0, color = white, distance = 0, predecessor = None, adj_list = [1]\<rparr>,
               \<lparr>data = 1, color = white, distance = 1, predecessor = Some 0, adj_list = [0, 2]\<rparr>,
               \<lparr>data = 2, color = white, distance = 2, predecessor = Some 1, adj_list = [1, 3]\<rparr>,
               \<lparr>data = 3, color = white, distance = 1, predecessor = Some 2, adj_list = [2]\<rparr>],
      edges = [\<lparr>source = 0, destination = 1, weight = 1\<rparr>,
               \<lparr>source = 1, destination = 2, weight = 2\<rparr>,
               \<lparr>source = 2, destination = 3, weight = 1\<rparr>],
      tot_nodes = 4, tot_edges = 3\<rparr> \<and>
   (\<exists>h2. prim \<lparr>nodes = [\<lparr>data = 0, color = black, distance = 3, predecessor = Some 1, adj_list = [1]\<rparr>,
               \<lparr>data = 1, color = black, distance = 2, predecessor = Some 2, adj_list = [0, 2]\<rparr>,
               \<lparr>data = 2, color = black, distance = 1, predecessor = Some 3, adj_list = [1, 3]\<rparr>,
               \<lparr>data = 3, color = black, distance = 0, predecessor = None, adj_list = [2]\<rparr>],
      edges = [\<lparr>source = 0, destination = 1, weight = 1\<rparr>,
               \<lparr>source = 1, destination = 2, weight = 2\<rparr>,
               \<lparr>source = 2, destination = 3, weight = 1\<rparr>],
      tot_nodes = 4, tot_edges = 3\<rparr> 0 = Inr h2 \<and>
      map distance (nodes h2) = [0, 1, 2, 1] \<and>
      map predecessor (nodes h2) = [None, Some 0, Some 1, Some 2])"
proof -
  let ?B = "\<lparr>nodes = [\<lparr>data = 0, color = black, distance = 0, predecessor = None, adj_list = [1]\<rparr>,
               \<lparr>data = 1, color = black, distance = 1, predecessor = Some 0, adj_list = [0, 2]\<rparr>,
               \<lparr>data = 2, color = black, distance = 2, predecessor = Some 1, adj_list = [1, 3]\<rparr>,
               \<lparr>data = 3, color = black, distance = 3, predecessor = Some 2, adj_list = [2]\<rparr>],
      edges = [\<lparr>source = 0, destination = 1, weight = 1\<rparr>,
               \<lparr>source = 1, destination = 2, weight = 2\<rparr>,
               \<lparr>source = 2, destination = 3, weight = 1\<rparr>],
      tot_nodes = 4, tot_edges = 3\<rparr>"
  let ?P = "\<lparr>nodes = [\<lparr>data = 0, color = white, distance = 0, predecessor = None, adj_list = [1]\<rparr>,
               \<lparr>data = 1, color = white, distance = 1, predecessor = Some 0, adj_list = [0, 2]\<rparr>,
               \<lparr>data = 2, color = white, distance = 2, predecessor = Some 1, adj_list = [1, 3]\<rparr>,
               \<lparr>data = 3, color = white, distance = 1, predecessor = Some 2, adj_list = [2]\<rparr>],
      edges = [\<lparr>source = 0, destination = 1, weight = 1\<rparr>,
               \<lparr>source = 1, destination = 2, weight = 2\<rparr>,
               \<lparr>source = 2, destination = 3, weight = 1\<rparr>],
      tot_nodes = 4, tot_edges = 3\<rparr>"
  let ?X = "\<lparr>nodes = [\<lparr>data = 0, color = black, distance = 3, predecessor = Some 1, adj_list = [1]\<rparr>,
               \<lparr>data = 1, color = black, distance = 2, predecessor = Some 2, adj_list = [0, 2]\<rparr>,
               \<lparr>data = 2, color = black, distance = 1, predecessor = Some 3, adj_list = [1, 3]\<rparr>,
               \<lparr>data = 3, color = black, distance = 0, predecessor = None, adj_list = [2]\<rparr>],
      edges = [\<lparr>source = 0, destination = 1, weight = 1\<rparr>,
               \<lparr>source = 1, destination = 2, weight = 2\<rparr>,
               \<lparr>source = 2, destination = 3, weight = 1\<rparr>],
      tot_nodes = 4, tot_edges = 3\<rparr>"
  let ?Y = "\<lparr>nodes = [\<lparr>data = 0, color = white, distance = 7, predecessor = Some 3, adj_list = [1]\<rparr>,
               \<lparr>data = 1, color = white, distance = 7, predecessor = Some 3, adj_list = [0, 2]\<rparr>,
               \<lparr>data = 2, color = white, distance = 7, predecessor = Some 3, adj_list = [1, 3]\<rparr>,
               \<lparr>data = 3, color = white, distance = 7, predecessor = Some 3, adj_list = [2]\<rparr>],
      edges = [\<lparr>source = 0, destination = 1, weight = 1\<rparr>,
               \<lparr>source = 1, destination = 2, weight = 2\<rparr>,
               \<lparr>source = 2, destination = 3, weight = 1\<rparr>],
      tot_nodes = 4, tot_edges = 3\<rparr>"
  have b: "bfs path4 0 = Inr ?B"
    unfolding path4_def by code_simp
  have p: "prim path4 0 = Inr ?P"
    unfolding path4_def by code_simp
  have x: "bfs path4 3 = Inr ?X"
    unfolding path4_def by code_simp
  have xd: "map data (nodes ?X) = map data (nodes path4)"
    unfolding path4_def by code_simp
  have xa: "map adj_list (nodes ?X) = map adj_list (nodes path4)"
    unfolding path4_def by code_simp
  have xe: "edges ?X = edges path4"
    unfolding path4_def by code_simp
  have yd: "map data (nodes ?Y) = map data (nodes path4)"
    unfolding path4_def by code_simp
  have yc: "map color (nodes ?Y) = map color (nodes path4)"
    unfolding path4_def by code_simp
  have ya: "map adj_list (nodes ?Y) = map adj_list (nodes path4)"
    unfolding path4_def by code_simp
  have ye: "edges ?Y = edges path4"
    unfolding path4_def by code_simp
  have bb: "bfs ?B 0 = Inr ?B"
    using b search_twice_same_result[where g = path4 and src = 0 and ?g1.0 = ?B] by blast
  have pp: "prim ?P 0 = Inr ?P"
    using p search_twice_same_result[where g = path4 and src = 0 and ?g2.0 = ?P] by blast
  have "bfs ?X 0 = Inr (?X\<lparr>nodes := nodes ?B\<rparr>)"
    using b xd xa search_twice_same_result[where g = path4 and src = 0 and ?g1.0 = ?B
        and h = ?X] by blast
  then have bx: "bfs ?X 0 = Inr ?B" by simp
  have "prim ?Y 0 = Inr (?Y\<lparr>nodes := nodes ?P\<rparr>)"
    using p yd yc ya ye search_twice_same_result[where g = path4 and src = 0 and ?g2.0 = ?P
        and h = ?Y] by blast
  then have py: "prim ?Y 0 = Inr ?P" by simp
  have "\<exists>h2. prim ?X 0 = Inr h2 \<and> map distance (nodes h2) = map distance (nodes ?P) \<and>
      map predecessor (nodes h2) = map predecessor (nodes ?P)"
    using p xa xe search_twice_same_result[where g = path4 and src = 0 and ?g2.0 = ?P
        and h = ?X] by blast
  then have px: "\<exists>h2. prim ?X 0 = Inr h2 \<and> map distance (nodes h2) = [0, 1, 2, 1] \<and>
      map predecessor (nodes h2) = [None, Some 0, Some 1, Some 2]" by simp
  from b bb p pp x bx py px show ?thesis by (intro conjI)
qed

subsection \<open>The frame of the searches\<close>

text \<open>
  C10: \<open>bfs\<close> and \<open>prim\<close> change only the colour, distance and predecessor of nodes:
  the edge vector, \<open>tot_nodes\<close>, \<open>tot_edges\<close>, the number of nodes, and the identity and
  adjacency list of every node are as before, and \<open>prim\<close> leaves every colour as it
  was. \<open>is_binary\<close> and \<open>is_complete_binary\<close> assign to no field of the graph or of a
  node (their only variable is the local \<open>children\<close>), which is why they are functions
  from the graph to a truth value here.
\<close>

theorem searches_change_only_search_state:
  "(bfs g src = Inr g1 \<longrightarrow>
      edges g1 = edges g \<and> tot_nodes g1 = tot_nodes g \<and> tot_edges g1 = tot_edges g \<and>
      length (nodes g1) = length (nodes g) \<and> map data (nodes g1) = map data (nodes g) \<and>
      map adj_list (nodes g1) = map adj_list (nodes g)) \<and>
   (prim g src = Inr g2 \<longrightarrow>
      edges g2 = edges g \<and> tot_nodes g2 = tot_nodes g \<and> tot_edges g2 = tot_edges g \<and>
      length (nodes g2) = length (nodes g) \<and> map data (nodes g2) = map data (nodes g) \<and>
      map adj_list (nodes g2) = map adj_list (nodes g) \<and>
      map color (nodes g2) = map color (nodes g))"
proof (intro conjI impI)
  assume "prim g src = Inr g2"
  then obtain lg where "prim_run g src = Inr (g2, lg)"
    by (auto simp: prim_def split: sum.splits)
  note fr = prim_run_frame[OF this]
  from fr show "edges g2 = edges g" "tot_nodes g2 = tot_nodes g" "tot_edges g2 = tot_edges g"
    "map data (nodes g2) = map data (nodes g)" "map adj_list (nodes g2) = map adj_list (nodes g)"
    "map color (nodes g2) = map color (nodes g)" by simp_all
  from fr have "map data (nodes g2) = map data (nodes g)" by simp
  then show "length (nodes g2) = length (nodes g)" by (rule map_eq_imp_length_eq)
next
  assume "bfs g src = Inr g1"
  note fr = bfs_frame[OF this]
  from fr show "edges g1 = edges g" "tot_nodes g1 = tot_nodes g" "tot_edges g1 = tot_edges g"
    "map data (nodes g1) = map data (nodes g)" "map adj_list (nodes g1) = map adj_list (nodes g)"
    by simp_all
  from fr have "map data (nodes g1) = map data (nodes g)" by simp
  then show "length (nodes g1) = length (nodes g)" by (rule map_eq_imp_length_eq)
qed

theorem searches_change_only_search_state_witness:
  "bfs path4 0 =
     Inr \<lparr>nodes = [\<lparr>data = 0, color = black, distance = 0, predecessor = None, adj_list = [1]\<rparr>,
               \<lparr>data = 1, color = black, distance = 1, predecessor = Some 0, adj_list = [0, 2]\<rparr>,
               \<lparr>data = 2, color = black, distance = 2, predecessor = Some 1, adj_list = [1, 3]\<rparr>,
               \<lparr>data = 3, color = black, distance = 3, predecessor = Some 2, adj_list = [2]\<rparr>],
      edges = [\<lparr>source = 0, destination = 1, weight = 1\<rparr>,
               \<lparr>source = 1, destination = 2, weight = 2\<rparr>,
               \<lparr>source = 2, destination = 3, weight = 1\<rparr>],
      tot_nodes = 4, tot_edges = 3\<rparr> \<and>
   prim \<lparr>nodes = [\<lparr>data = 0, color = black, distance = 0, predecessor = None, adj_list = [1]\<rparr>,
               \<lparr>data = 1, color = black, distance = 1, predecessor = Some 0, adj_list = [0, 2]\<rparr>,
               \<lparr>data = 2, color = black, distance = 2, predecessor = Some 1, adj_list = [1, 3]\<rparr>,
               \<lparr>data = 3, color = black, distance = 3, predecessor = Some 2, adj_list = [2]\<rparr>],
      edges = [\<lparr>source = 0, destination = 1, weight = 1\<rparr>,
               \<lparr>source = 1, destination = 2, weight = 2\<rparr>,
               \<lparr>source = 2, destination = 3, weight = 1\<rparr>],
      tot_nodes = 4, tot_edges = 3\<rparr> 0 =
     Inr \<lparr>nodes = [\<lparr>data = 0, color = black, distance = 0, predecessor = None, adj_list = [1]\<rparr>,
               \<lparr>data = 1, color = black, distance = 1, predecessor = Some 0, adj_list = [0, 2]\<rparr>,
               \<lparr>data = 2, color = black, distance = 2, predecessor = Some 1, adj_list = [1, 3]\<rparr>,
               \<lparr>data = 3, color = black, distance = 1, predecessor = Some 2, adj_list = [2]\<rparr>],
      edges = [\<lparr>source = 0, destination = 1, weight = 1\<rparr>,
               \<lparr>source = 1, destination = 2, weight = 2\<rparr>,
               \<lparr>source = 2, destination = 3, weight = 1\<rparr>],
      tot_nodes = 4, tot_edges = 3\<rparr> \<and>
   edges (projr (bfs path4 0)) = edges path4 \<and>
   map adj_list (nodes (projr (bfs path4 0))) = map adj_list (nodes path4) \<and>
   map color (nodes \<lparr>nodes = [\<lparr>data = 0, color = black, distance = 0, predecessor = None, adj_list = [1]\<rparr>,
               \<lparr>data = 1, color = black, distance = 1, predecessor = Some 0, adj_list = [0, 2]\<rparr>,
               \<lparr>data = 2, color = black, distance = 2, predecessor = Some 1, adj_list = [1, 3]\<rparr>,
               \<lparr>data = 3, color = black, distance = 1, predecessor = Some 2, adj_list = [2]\<rparr>],
      edges = [\<lparr>source = 0, destination = 1, weight = 1\<rparr>,
               \<lparr>source = 1, destination = 2, weight = 2\<rparr>,
               \<lparr>source = 2, destination = 3, weight = 1\<rparr>],
      tot_nodes = 4, tot_edges = 3\<rparr>) = [black, black, black, black]"
proof -
  have b: "bfs path4 0 =
     Inr \<lparr>nodes = [\<lparr>data = 0, color = black, distance = 0, predecessor = None, adj_list = [1]\<rparr>,
               \<lparr>data = 1, color = black, distance = 1, predecessor = Some 0, adj_list = [0, 2]\<rparr>,
               \<lparr>data = 2, color = black, distance = 2, predecessor = Some 1, adj_list = [1, 3]\<rparr>,
               \<lparr>data = 3, color = black, distance = 3, predecessor = Some 2, adj_list = [2]\<rparr>],
      edges = [\<lparr>source = 0, destination = 1, weight = 1\<rparr>,
               \<lparr>source = 1, destination = 2, weight = 2\<rparr>,
               \<lparr>source = 2, destination = 3, weight = 1\<rparr>],
      tot_nodes = 4, tot_edges = 3\<rparr>"
    unfolding path4_def by code_simp
  have p: "prim \<lparr>nodes = [\<lparr>data = 0, color = black, distance = 0, predecessor = None, adj_list = [1]\<rparr>,
               \<lparr>data = 1, color = black, distance = 1, predecessor = Some 0, adj_list = [0, 2]\<rparr>,
               \<lparr>data = 2, color = black, distance = 2, predecessor = Some 1, adj_list = [1, 3]\<rparr>,
               \<lparr>data = 3, color = black, distance = 3, predecessor = Some 2, adj_list = [2]\<rparr>],
      edges = [\<lparr>source = 0, destination = 1, weight = 1\<rparr>,
               \<lparr>source = 1, destination = 2, weight = 2\<rparr>,
               \<lparr>source = 2, destination = 3, weight = 1\<rparr>],
      tot_nodes = 4, tot_edges = 3\<rparr> 0 =
     Inr \<lparr>nodes = [\<lparr>data = 0, color = black, distance = 0, predecessor = None, adj_list = [1]\<rparr>,
               \<lparr>data = 1, color = black, distance = 1, predecessor = Some 0, adj_list = [0, 2]\<rparr>,
               \<lparr>data = 2, color = black, distance = 2, predecessor = Some 1, adj_list = [1, 3]\<rparr>,
               \<lparr>data = 3, color = black, distance = 1, predecessor = Some 2, adj_list = [2]\<rparr>],
      edges = [\<lparr>source = 0, destination = 1, weight = 1\<rparr>,
               \<lparr>source = 1, destination = 2, weight = 2\<rparr>,
               \<lparr>source = 2, destination = 3, weight = 1\<rparr>],
      tot_nodes = 4, tot_edges = 3\<rparr>"
    by code_simp
  from searches_change_only_search_state[where g = path4 and src = 0
      and ?g1.0 = "projr (bfs path4 0)"] b
  have f: "edges (projr (bfs path4 0)) = edges path4"
    "map adj_list (nodes (projr (bfs path4 0))) = map adj_list (nodes path4)" by simp_all
  from searches_change_only_search_state[where g = "\<lparr>nodes = [\<lparr>data = 0, color = black, distance = 0, predecessor = None, adj_list = [1]\<rparr>,
               \<lparr>data = 1, color = black, distance = 1, predecessor = Some 0, adj_list = [0, 2]\<rparr>,
               \<lparr>data = 2, color = black, distance = 2, predecessor = Some 1, adj_list = [1, 3]\<rparr>,
               \<lparr>data = 3, color = black, distance = 3, predecessor = Some 2, adj_list = [2]\<rparr>],
      edges = [\<lparr>source = 0, destination = 1, weight = 1\<rparr>,
               \<lparr>source = 1, destination = 2, weight = 2\<rparr>,
               \<lparr>source = 2, destination = 3, weight = 1\<rparr>],
      tot_nodes = 4, tot_edges = 3\<rparr>"
      and src = 0 and ?g2.0 = "\<lparr>nodes = [\<lparr>data = 0, color = black, distance = 0, predecessor = None, adj_list = [1]\<rparr>,
               \<lparr>data = 1, color = black, distance = 1, predecessor = Some 0, adj_list = [0, 2]\<rparr>,
               \<lparr>data = 2, color = black, distance = 2, predecessor = Some 1, adj_list = [1, 3]\<rparr>,
               \<lparr>data = 3, color = black, distance = 1, predecessor = Some 2, adj_list = [2]\<rparr>],
      edges = [\<lparr>source = 0, destination = 1, weight = 1\<rparr>,
               \<lparr>source = 1, destination = 2, weight = 2\<rparr>,
               \<lparr>source = 2, destination = 3, weight = 1\<rparr>],
      tot_nodes = 4, tot_edges = 3\<rparr>"] p
  have "map color (nodes \<lparr>nodes = [\<lparr>data = 0, color = black, distance = 0, predecessor = None, adj_list = [1]\<rparr>,
               \<lparr>data = 1, color = black, distance = 1, predecessor = Some 0, adj_list = [0, 2]\<rparr>,
               \<lparr>data = 2, color = black, distance = 2, predecessor = Some 1, adj_list = [1, 3]\<rparr>,
               \<lparr>data = 3, color = black, distance = 1, predecessor = Some 2, adj_list = [2]\<rparr>],
      edges = [\<lparr>source = 0, destination = 1, weight = 1\<rparr>,
               \<lparr>source = 1, destination = 2, weight = 2\<rparr>,
               \<lparr>source = 2, destination = 3, weight = 1\<rparr>],
      tot_nodes = 4, tot_edges = 3\<rparr>) =
     map color (nodes \<lparr>nodes = [\<lparr>data = 0, color = black, distance = 0, predecessor = None, adj_list = [1]\<rparr>,
               \<lparr>data = 1, color = black, distance = 1, predecessor = Some 0, adj_list = [0, 2]\<rparr>,
               \<lparr>data = 2, color = black, distance = 2, predecessor = Some 1, adj_list = [1, 3]\<rparr>,
               \<lparr>data = 3, color = black, distance = 3, predecessor = Some 2, adj_list = [2]\<rparr>],
      edges = [\<lparr>source = 0, destination = 1, weight = 1\<rparr>,
               \<lparr>source = 1, destination = 2, weight = 2\<rparr>,
               \<lparr>source = 2, destination = 3, weight = 1\<rparr>],
      tot_nodes = 4, tot_edges = 3\<rparr>)" by blast
  then have "map color (nodes \<lparr>nodes = [\<lparr>data = 0, color = black, distance = 0, predecessor = None, adj_list = [1]\<rparr>,
               \<lparr>data = 1, color = black, distance = 1, predecessor = Some 0, adj_list = [0, 2]\<rparr>,
               \<lparr>data = 2, color = black, distance = 2, predecessor = Some 1, adj_list = [1, 3]\<rparr>,
               \<lparr>data = 3, color = black, distance = 1, predecessor = Some 2, adj_list = [2]\<rparr>],
      edges = [\<lparr>source = 0, destination = 1, weight = 1\<rparr>,
               \<lparr>source = 1, destination = 2, weight = 2\<rparr>,
               \<lparr>source = 2, destination = 3, weight = 1\<rparr>],
      tot_nodes = 4, tot_edges = 3\<rparr>) = [black, black, black, black]" by simp
  with b p f show ?thesis by blast
qed

end
